theory Spec2Isabelle
  imports Main "HOL-Library.Word"
begin

unbundle bit_operations_syntax

section \<open>The ChaCha20 core of \<^verbatim>\<open>src/comm/chacha20.h\<close>\<close>

text \<open>
  The header implements the ChaCha20 block function and a counter-mode XOR loop.
  The embedding follows the C text function by function.

  \<^item> \<^verbatim>\<open>uint8_t\<close> is \<open>8 word\<close> and \<^verbatim>\<open>uint32_t\<close> is \<open>32 word\<close>: addition wraps,
    a conversion between the two is \<open>ucast\<close>.
  \<^item> An array is a list. A function that receives a pointer and writes through it
    returns the array as it is after the call. A pointer into the middle of an array
    (\<^verbatim>\<open>output + (i << 2)\<close>, \<^verbatim>\<open>key + i * 4\<close>) is the array together with an offset.
  \<^item> The arrays of different element type (\<^verbatim>\<open>uint32_t in[16]\<close>, \<^verbatim>\<open>uint8_t out[64]\<close>)
    and the two byte buffers \<^verbatim>\<open>in\<close> and \<^verbatim>\<open>out\<close> of \<^verbatim>\<open>ChaCha20XOR\<close> are separate
    objects: the embedding does not cover calls whose arguments overlap in memory.
  \<^item> \<^verbatim>\<open>int\<close> is the 32-bit signed integer of the usual ABIs. The loop indices of
    \<^verbatim>\<open>ChaCha20XOR\<close> are mathematical integers together with an explicit check at the
    one place where the C arithmetic can leave the range of \<^verbatim>\<open>int\<close>; leaving it is
    undefined behaviour and is reported as the fault \<open>SignedOverflow\<close>.
  \<^item> Every access to the caller's buffers \<^verbatim>\<open>in\<close> and \<^verbatim>\<open>out\<close> of \<^verbatim>\<open>ChaCha20XOR\<close> is
    checked against the buffer's length; an access outside is the fault
    \<open>OutOfBounds\<close>.
  \<^item> The arrays with a size in their declaration (\<^verbatim>\<open>key[32]\<close>, \<^verbatim>\<open>nonce[12]\<close>,
    \<^verbatim>\<open>s[16]\<close>, \<^verbatim>\<open>in[16]\<close>, \<^verbatim>\<open>out[64]\<close>, \<^verbatim>\<open>block[64]\<close>, \<^verbatim>\<open>p[4]\<close>) are read and
    written at constant positions below that size. Their accesses are not checked;
    the statements below are about arrays of the declared sizes.
\<close>

type_synonym u8 = "8 word"
type_synonym u32 = "32 word"

datatype fault = OutOfBounds | SignedOverflow

definition INT_MAX :: int where
  "INT_MAX = 2147483647"

subsection \<open>Endian codec\<close>

text \<open>
  \<^verbatim>\<open>u32t8le(v, p)\<close> stores the four bytes of \<open>v\<close> at \<open>p[0..3]\<close>. Here \<open>p\<close> is the
  enclosing array and \<open>off\<close> the position the pointer refers to.
\<close>

definition u32t8le :: "u32 \<Rightarrow> u8 list \<Rightarrow> nat \<Rightarrow> u8 list" where
  "u32t8le v p off =
     (let p = p[off + 0 := ucast (v AND 0xff)];
          p = p[off + 1 := ucast (drop_bit 8 v AND 0xff)];
          p = p[off + 2 := ucast (drop_bit 16 v AND 0xff)];
          p = p[off + 3 := ucast (drop_bit 24 v AND 0xff)]
      in p)"

definition u8t32le :: "u8 list \<Rightarrow> nat \<Rightarrow> u32" where
  "u8t32le p off =
     (let value0 = (ucast (p ! (off + 3)) :: u32);
          value1 = push_bit 8 value0 OR ucast (p ! (off + 2));
          value2 = push_bit 8 value1 OR ucast (p ! (off + 1));
          value3 = push_bit 8 value2 OR ucast (p ! (off + 0))
      in value3)"

subsection \<open>Rotation and quarter round\<close>

text \<open>
  \<^verbatim>\<open>x << n | (x >> (-n & 31))\<close>. The shift amount \<open>n\<close> is a C \<^verbatim>\<open>int\<close>; the callers pass
  16, 12, 8 and 7. \<open>(- n) AND 31\<close> on \<open>int\<close> is the two's complement operation.
\<close>

definition rotl32 :: "u32 \<Rightarrow> int \<Rightarrow> u32" where
  "rotl32 x n = push_bit (nat n) x OR drop_bit (nat ((- n) AND 31)) x"

definition chacha20_quarterround :: "u32 list \<Rightarrow> nat \<Rightarrow> nat \<Rightarrow> nat \<Rightarrow> nat \<Rightarrow> u32 list" where
  "chacha20_quarterround x a b c d =
     (let x = x[a := x ! a + x ! b]; x = x[d := rotl32 (x ! d XOR x ! a) 16];
          x = x[c := x ! c + x ! d]; x = x[b := rotl32 (x ! b XOR x ! c) 12];
          x = x[a := x ! a + x ! b]; x = x[d := rotl32 (x ! d XOR x ! a) 8];
          x = x[c := x ! c + x ! d]; x = x[b := rotl32 (x ! b XOR x ! c) 7]
      in x)"

subsection \<open>Block function\<close>

definition chacha20_serialize :: "u32 list \<Rightarrow> u8 list \<Rightarrow> u8 list" where
  "chacha20_serialize inp output =
     fold (\<lambda>i output. u32t8le (inp ! i) output (push_bit 2 i)) [0..<16] output"

text \<open>The body of the round loop of \<^verbatim>\<open>chacha20_block\<close>: eight quarter rounds.\<close>

definition chacha20_block_rounds_body :: "u32 list \<Rightarrow> u32 list" where
  "chacha20_block_rounds_body x =
     (let x = chacha20_quarterround x 0 4 8 12;
          x = chacha20_quarterround x 1 5 9 13;
          x = chacha20_quarterround x 2 6 10 14;
          x = chacha20_quarterround x 3 7 11 15;
          x = chacha20_quarterround x 0 5 10 15;
          x = chacha20_quarterround x 1 6 11 12;
          x = chacha20_quarterround x 2 7 8 13;
          x = chacha20_quarterround x 3 4 9 14
      in x)"

text \<open>\<^verbatim>\<open>for (i = num_rounds; i > 0; i -= 2)\<close>\<close>

function chacha20_block_rounds :: "int \<Rightarrow> u32 list \<Rightarrow> u32 list" where
  "chacha20_block_rounds i x =
     (if i > 0 then chacha20_block_rounds (i - 2) (chacha20_block_rounds_body x) else x)"
  by pat_completeness auto
termination
  by (relation "measure (\<lambda>(i, x). nat i)") auto

declare chacha20_block_rounds.simps [simp del]

text \<open>
  \<^verbatim>\<open>chacha20_block(in, out, num_rounds)\<close> returns both arrays as they are after the
  call: the caller's state \<^verbatim>\<open>in\<close>, which no statement of the function assigns to, and
  the byte array \<^verbatim>\<open>out\<close>. \<^verbatim>\<open>memcpy(x, in, sizeof(uint32_t) * 16)\<close> fills the local
  \<open>x\<close> with the first 16 words of \<^verbatim>\<open>in\<close>.
\<close>

definition chacha20_block :: "u32 list \<Rightarrow> u8 list \<Rightarrow> int \<Rightarrow> u32 list \<times> u8 list" where
  "chacha20_block inp out num_rounds =
     (let x = take 16 inp;
          x = chacha20_block_rounds num_rounds x;
          x = fold (\<lambda>i x. x[i := x ! i + inp ! i]) [0..<16] x
      in (inp, chacha20_serialize x out))"

subsection \<open>State initialisation\<close>

definition chacha20_init_state :: "u32 list \<Rightarrow> u8 list \<Rightarrow> u32 \<Rightarrow> u8 list \<Rightarrow> u32 list" where
  "chacha20_init_state s key counter nonce =
     (let s = s[0 := 0x61707865];
          s = s[1 := 0x3320646e];
          s = s[2 := 0x79622d32];
          s = s[3 := 0x6b206574];
          s = fold (\<lambda>i s. s[4 + i := u8t32le key (i * 4)]) [0..<8] s;
          s = s[12 := counter];
          s = fold (\<lambda>i s. s[13 + i := u8t32le nonce (i * 4)]) [0..<3] s
      in s)"

subsection \<open>Counter-mode XOR\<close>

text \<open>
  The inner loop \<^verbatim>\<open>for (j = i; j < i + 64; j++)\<close>. The sum \<open>i + 64\<close> is the only
  arithmetic on \<^verbatim>\<open>int\<close> that can overflow: \<open>j + 1\<close> is at most \<open>i + 64\<close>, \<open>j - i\<close>
  lies between 0 and 63, and the outer \<^verbatim>\<open>i += 64\<close> computes the same sum again.
\<close>

function ChaCha20XOR_inner ::
  "int \<Rightarrow> int \<Rightarrow> int \<Rightarrow> u8 list \<Rightarrow> u8 list \<Rightarrow> u8 list \<Rightarrow> fault + u8 list" where
  "ChaCha20XOR_inner j i inlen inp block out =
     (if i + 64 > INT_MAX then Inl SignedOverflow
      else if j < i + 64 then
        (if j \<ge> inlen then Inr out
         else if j < 0 \<or> int (length inp) \<le> j \<or> int (length out) \<le> j
                \<or> j - i < 0 \<or> int (length block) \<le> j - i then Inl OutOfBounds
         else ChaCha20XOR_inner (j + 1) i inlen inp block
                (out[nat j := inp ! nat j XOR block ! nat (j - i)]))
      else Inr out)"
  by pat_completeness auto
termination
  by (relation "measure (\<lambda>(j, i, inlen, inp, block, out). nat (i + 64 - j))") auto

declare ChaCha20XOR_inner.simps [simp del]

text \<open>
  The outer loop \<^verbatim>\<open>for (i = 0; i < inlen; i += 64)\<close>, on the locals \<open>s\<close> and
  \<open>block\<close> and the caller's \<open>out\<close>.
\<close>

function ChaCha20XOR_outer ::
  "int \<Rightarrow> int \<Rightarrow> u8 list \<Rightarrow> u32 list \<Rightarrow> u8 list \<Rightarrow> u8 list \<Rightarrow> fault + (u32 list \<times> u8 list)" where
  "ChaCha20XOR_outer i inlen inp s block out =
     (if i < inlen then
        (let (s, block) = chacha20_block s block 20;
             s = s[12 := s ! 12 + 1]
         in case ChaCha20XOR_inner i i inlen inp block out of
              Inl e \<Rightarrow> Inl e
            | Inr out \<Rightarrow> ChaCha20XOR_outer (i + 64) inlen inp s block out)
      else Inr (s, out))"
  by pat_completeness auto
termination
  by (relation "measure (\<lambda>(i, inlen, inp, s, block, out). nat (inlen - i))") auto

declare ChaCha20XOR_outer.simps [simp del]

text \<open>
  \<^verbatim>\<open>ChaCha20XOR(key, counter, nonce, in, out, inlen)\<close>. The result is the local state
  \<open>s\<close> as it is when the function returns, and the caller's \<open>out\<close>. The locals
  \<^verbatim>\<open>s[16]\<close> and \<^verbatim>\<open>block[64]\<close> are not initialised by the C code; both are written in
  full before they are read, and start here as zeros.
\<close>

definition ChaCha20XOR ::
  "u8 list \<Rightarrow> u32 \<Rightarrow> u8 list \<Rightarrow> u8 list \<Rightarrow> u8 list \<Rightarrow> int \<Rightarrow> fault + (u32 list \<times> u8 list)" where
  "ChaCha20XOR key counter nonce inp out inlen =
     (let s = chacha20_init_state (replicate 16 0) key counter nonce
      in ChaCha20XOR_outer 0 inlen inp s (replicate 64 0) out)"

text \<open>
  The keystream byte at position \<open>t\<close> of the stream for \<open>(key, counter, nonce)\<close>:
  byte \<open>t mod 64\<close> of the block that \<^verbatim>\<open>chacha20_block\<close> writes for the state
  initialised with the counter \<open>counter + t div 64\<close> (addition of \<^verbatim>\<open>uint32_t\<close>).
\<close>

definition keystream_byte :: "u8 list \<Rightarrow> u32 \<Rightarrow> u8 list \<Rightarrow> nat \<Rightarrow> u8" where
  "keystream_byte key counter nonce t =
     snd (chacha20_block
            (chacha20_init_state (replicate 16 0) key (counter + word_of_nat (t div 64)) nonce)
            (replicate 64 0) 20) ! (t mod 64)"

section \<open>The written specification, for comparison\<close>

text \<open>
  The definitions of this section follow the wording of the specification (sections
  3, 4.1 to 4.5 and 8), not the C text. They are the right-hand sides of the
  refinement statements below.
\<close>

definition spec_wordToLittleEndianBytes :: "u32 \<Rightarrow> u8 list" where
  "spec_wordToLittleEndianBytes v = map (\<lambda>i. ucast (drop_bit (8 * i) v AND 0xff)) [0..<4]"

text \<open>Weighted combination of the bytes, least significant first.\<close>

definition spec_littleEndianBytesToWord :: "u8 list \<Rightarrow> u32" where
  "spec_littleEndianBytesToWord bs = word_of_nat (foldr (\<lambda>b acc. unat b + 256 * acc) bs 0)"

definition spec_littleEndianWords :: "u8 list \<Rightarrow> nat \<Rightarrow> u32 list" where
  "spec_littleEndianWords bs n =
     map (\<lambda>i. spec_littleEndianBytesToWord (take 4 (drop (4 * i) bs))) [0..<n]"

definition spec_rotateLeft32 :: "u32 \<Rightarrow> nat \<Rightarrow> u32" where
  "spec_rotateLeft32 x n = word_rotl n x"

definition spec_quarter_round :: "u32 \<times> u32 \<times> u32 \<times> u32 \<Rightarrow> u32 \<times> u32 \<times> u32 \<times> u32" where
  "spec_quarter_round = (\<lambda>(a, b, c, d).
     let a = a + b; d = spec_rotateLeft32 (d XOR a) 16;
         c = c + d; b = spec_rotateLeft32 (b XOR c) 12;
         a = a + b; d = spec_rotateLeft32 (d XOR a) 8;
         c = c + d; b = spec_rotateLeft32 (b XOR c) 7
     in (a, b, c, d))"

text \<open>The quarter round on the four positions of a group of the 16-word state.\<close>

definition spec_quarter_round_at :: "u32 list \<Rightarrow> nat \<times> nat \<times> nat \<times> nat \<Rightarrow> u32 list" where
  "spec_quarter_round_at st = (\<lambda>(i, j, k, l).
     case spec_quarter_round (st ! i, st ! j, st ! k, st ! l) of
       (a, b, c, d) \<Rightarrow> st[i := a, j := b, k := c, l := d])"

definition spec_column_groups :: "(nat \<times> nat \<times> nat \<times> nat) list" where
  "spec_column_groups = [(0, 4, 8, 12), (1, 5, 9, 13), (2, 6, 10, 14), (3, 7, 11, 15)]"

definition spec_diagonal_groups :: "(nat \<times> nat \<times> nat \<times> nat) list" where
  "spec_diagonal_groups = [(0, 5, 10, 15), (1, 6, 11, 12), (2, 7, 8, 13), (3, 4, 9, 14)]"

definition spec_double_round :: "u32 list \<Rightarrow> u32 list" where
  "spec_double_round st =
     foldl spec_quarter_round_at (foldl spec_quarter_round_at st spec_column_groups)
       spec_diagonal_groups"

definition spec_block_transform :: "u32 list \<Rightarrow> nat \<Rightarrow> u8 list" where
  "spec_block_transform st roundCount =
     (let working = (spec_double_round ^^ (roundCount div 2)) st;
          summed = map2 (+) working st
      in concat (map spec_wordToLittleEndianBytes summed))"

text \<open>The constant of words 0 to 3 as text.\<close>

definition spec_constant_text :: "u8 list" where
  "spec_constant_text = map (\<lambda>c. word_of_nat (of_char c)) ''expand 32-byte k''"

text \<open>
  The published keystream block for the all-zero key, the all-zero nonce and
  counter 0: RFC 7539, appendix A.1, test vector 1.
\<close>

definition rfc7539_keystream_zero :: "u8 list" where
  "rfc7539_keystream_zero =
     [0x76, 0xb8, 0xe0, 0xad, 0xa0, 0xf1, 0x3d, 0x90, 0x40, 0x5d, 0x6a, 0xe5, 0x53, 0x86, 0xbd, 0x28,
      0xbd, 0xd2, 0x19, 0xb8, 0xa0, 0x8d, 0xed, 0x1a, 0xa8, 0x36, 0xef, 0xcc, 0x8b, 0x77, 0x0d, 0xc7,
      0xda, 0x41, 0x59, 0x7c, 0x51, 0x57, 0x48, 0x8d, 0x77, 0x24, 0xe0, 0x3f, 0xb8, 0xd8, 0x4a, 0x37,
      0x6a, 0x43, 0xb8, 0xf4, 0x15, 0x18, 0xa1, 0x1c, 0xc3, 0x87, 0xb6, 0x69, 0xb2, 0xee, 0x65, 0x86]"

text \<open>
  The state and the block of the example of RFC 7539, section 2.3.2: the key
  \<open>00 01 .. 1f\<close>, the nonce \<open>00 00 00 09 00 00 00 4a 00 00 00 00\<close> and the counter 1.
\<close>

definition rfc7539_state_2_3_2 :: "u32 list" where
  "rfc7539_state_2_3_2 =
     [0x61707865, 0x3320646e, 0x79622d32, 0x6b206574,
      0x03020100, 0x07060504, 0x0b0a0908, 0x0f0e0d0c,
      0x13121110, 0x17161514, 0x1b1a1918, 0x1f1e1d1c,
      0x00000001, 0x09000000, 0x4a000000, 0x00000000]"

definition rfc7539_block_2_3_2 :: "u8 list" where
  "rfc7539_block_2_3_2 =
     [0x10, 0xf1, 0xe7, 0xe4, 0xd1, 0x3b, 0x59, 0x15, 0x50, 0x0f, 0xdd, 0x1f, 0xa3, 0x20, 0x71, 0xc4,
      0xc7, 0xd1, 0xf4, 0xc7, 0x33, 0xc0, 0x68, 0x03, 0x04, 0x22, 0xaa, 0x9a, 0xc3, 0xd4, 0x6c, 0x4e,
      0xd2, 0x82, 0x64, 0x46, 0x07, 0x9f, 0xaa, 0x09, 0x14, 0xc2, 0xd7, 0x05, 0xd9, 0x8b, 0x02, 0xa2,
      0xb5, 0x12, 0x9c, 0xd1, 0xde, 0x16, 0x4e, 0xb9, 0xcb, 0xd0, 0x83, 0xe8, 0xa2, 0x50, 0x3c, 0x4e]"

section \<open>Endian codec: properties\<close>

lemma ff_mask: "(0xff :: u32) = mask 8"
  by (simp add: mask_eq_exp_minus_1)

lemma byte_of_word: "(ucast (w AND 0xff) :: u8) = ucast (w :: u32)"
  unfolding ff_mask by (rule bit_word_eqI) (auto simp add: bit_simps)

lemma le_bytes_join:
  fixes v :: u32
  shows "push_bit 8 (push_bit 8 (push_bit 8 (ucast (ucast (drop_bit 24 v) :: u8))
       OR ucast (ucast (drop_bit 16 v) :: u8))
       OR ucast (ucast (drop_bit 8 v) :: u8))
     OR ucast (ucast v :: u8) = v" (is "?w = v")
proof (rule bit_word_eqI)
  fix n :: nat
  assume "n < LENGTH(32)"
  then consider "n < 8" | "8 \<le> n" "n < 16" | "16 \<le> n" "n < 24" | "24 \<le> n" "n < 32"
    by fastforce
  then show "bit ?w n = bit v n"
    by cases (auto simp add: bit_simps)
qed

lemma le_bytes_split:
  fixes b0 b1 b2 b3 :: u8
  defines "w \<equiv> push_bit 8 (push_bit 8 (push_bit 8 (ucast b3 :: u32) OR ucast b2) OR ucast b1) OR ucast b0"
  shows "ucast w = b0" "ucast (drop_bit 8 w) = b1" "ucast (drop_bit 16 w) = b2" "ucast (drop_bit 24 w) = b3"
  unfolding w_def
  by (rule bit_word_eqI; auto simp add: bit_simps dest: bit_imp_le_length)+

lemma u32t8le_length: "length (u32t8le v p off) = length p"
  by (simp add: u32t8le_def Let_def)

lemma u32t8le_nth:
  assumes "off + 4 \<le> length p"
  shows "u32t8le v p off ! k =
    (if k = off then ucast v else if k = off + 1 then ucast (drop_bit 8 v)
     else if k = off + 2 then ucast (drop_bit 16 v)
     else if k = off + 3 then ucast (drop_bit 24 v) else p ! k)"
  using assms by (simp add: u32t8le_def Let_def byte_of_word nth_list_update)

lemma u8t32le_u32t8le:
  assumes "off + 4 \<le> length p"
  shows "u8t32le (u32t8le v p off) off = v"
proof -
  have n: "u32t8le v p off ! (off + 0) = ucast v"
    "u32t8le v p off ! (off + 1) = ucast (drop_bit 8 v)"
    "u32t8le v p off ! (off + 2) = ucast (drop_bit 16 v)"
    "u32t8le v p off ! (off + 3) = ucast (drop_bit 24 v)"
    using assms by (simp_all add: u32t8le_nth)
  show ?thesis unfolding u8t32le_def Let_def n by (rule le_bytes_join)
qed

lemma u8t32le_bytes:
  "ucast (u8t32le p off) = p ! (off + 0)"
  "ucast (drop_bit 8 (u8t32le p off)) = p ! (off + 1)"
  "ucast (drop_bit 16 (u8t32le p off)) = p ! (off + 2)"
  "ucast (drop_bit 24 (u8t32le p off)) = p ! (off + 3)"
  unfolding u8t32le_def Let_def by (rule le_bytes_split)+

lemma u32t8le_u8t32le:
  assumes "off + 4 \<le> length p"
  shows "u32t8le (u8t32le p off) p off = p"
proof (rule nth_equalityI)
  show "length (u32t8le (u8t32le p off) p off) = length p"
    by (rule u32t8le_length)
next
  fix k
  assume "k < length (u32t8le (u8t32le p off) p off)"
  show "u32t8le (u8t32le p off) p off ! k = p ! k"
    using assms by (simp add: u32t8le_nth u8t32le_bytes)
qed

lemma u32t8le_byte:
  assumes "off + 4 \<le> length p" "i < 4"
  shows "u32t8le v p off ! (off + i) = ucast (drop_bit (8 * i) v AND 0xff)"
proof -
  from \<open>i < 4\<close> consider "i = 0" | "i = 1" | "i = 2" | "i = 3"
    by fastforce
  then show ?thesis
    using assms(1) by cases (simp_all add: u32t8le_nth byte_of_word)
qed

text \<open>
  Claim C8. For an array \<open>p\<close> with four bytes at the pointer position \<open>off\<close>:
  byte \<open>i\<close> that \<^verbatim>\<open>u32t8le\<close> stores is \<open>(v >> (8*i)) & 0xff\<close> for \<open>i\<close> from 0 to 3, the
  bytes outside the four positions keep their values, \<^verbatim>\<open>u8t32le\<close> reads the stored
  word back, and storing the word that \<^verbatim>\<open>u8t32le\<close> reads restores the array. Both
  functions are total: neither has an error result.
\<close>

theorem endian_codec_inverse:
  assumes "off + 4 \<le> length p"
  shows "(\<forall>i<4. u32t8le v p off ! (off + i) = ucast (drop_bit (8 * i) v AND 0xff))
       \<and> length (u32t8le v p off) = length p
       \<and> (\<forall>k<length p. k < off \<or> off + 4 \<le> k \<longrightarrow> u32t8le v p off ! k = p ! k)
       \<and> u8t32le (u32t8le v p off) off = v
       \<and> u32t8le (u8t32le p off) p off = p"
proof (intro conjI)
  show "\<forall>i<4. u32t8le v p off ! (off + i) = ucast (drop_bit (8 * i) v AND 0xff)"
    using assms by (simp add: u32t8le_byte)
  show "length (u32t8le v p off) = length p"
    by (rule u32t8le_length)
  show "\<forall>k<length p. k < off \<or> off + 4 \<le> k \<longrightarrow> u32t8le v p off ! k = p ! k"
    using assms by (auto simp add: u32t8le_nth)
  show "u8t32le (u32t8le v p off) off = v"
    using assms by (rule u8t32le_u32t8le)
  show "u32t8le (u8t32le p off) p off = p"
    using assms by (rule u32t8le_u8t32le)
qed

theorem endian_codec_inverse_witness:
  "(1::nat) + 4 \<le> length [9, 8, 7, 6, 5, 4 :: u8]
   \<and> u32t8le 0x04030201 [9, 8, 7, 6, 5, 4] 1 = [9, 1, 2, 3, 4, 4]
   \<and> u8t32le [9, 1, 2, 3, 4, 4] 1 = 0x04030201
   \<and> u32t8le (u8t32le [9, 8, 7, 6, 5, 4] 1) [9, 8, 7, 6, 5, 4] 1 = [9, 8, 7, 6, 5, 4]"
proof -
  have h: "(1::nat) + 4 \<le> length [9, 8, 7, 6, 5, 4 :: u8]"
    by simp
  have e: "u32t8le 0x04030201 [9, 8, 7, 6, 5, 4] 1 = [9, 1, 2, 3, 4, 4]"
    by (simp add: u32t8le_def)
  note t = endian_codec_inverse [OF h, of "0x04030201"]
  from t have a: "u8t32le (u32t8le 0x04030201 [9, 8, 7, 6, 5, 4] 1) 1 = 0x04030201"
    by blast
  from t have b: "u32t8le (u8t32le [9, 8, 7, 6, 5, 4] 1) [9, 8, 7, 6, 5, 4] 1 = [9, 8, 7, 6, 5, 4]"
    by blast
  show ?thesis
    by (intro conjI h e a [unfolded e] b)
qed

section \<open>Quarter round and block function: refinement of the specification\<close>

lemma rotl32_AND31:
  assumes "0 < n" "n < 32"
  shows "nat ((- n) AND 31) = 32 - nat n"
proof -
  have "(- n) AND 31 = take_bit 5 (- n)"
    by (simp add: take_bit_eq_mask mask_eq_exp_minus_1)
  also have "\<dots> = (- n) mod 32" by (simp add: take_bit_eq_mod)
  also have "\<dots> = 32 - n" using assms
    by (smt (verit) mod_pos_pos_trivial mod_add_self2)
  finally show ?thesis using assms by simp
qed

lemma rotl32_word_rotl:
  assumes "0 < n" "n < 32"
  shows "rotl32 x n = word_rotl (nat n) x"
proof (rule bit_word_eqI)
  fix k :: nat
  assume k: "k < LENGTH(32)"
  define m where "m = nat n"
  have m: "0 < m" "m < 32" using assms by (simp_all add: m_def)
  have oob: "\<not> bit x j" if "32 \<le> j" for j
    using that bit_imp_le_length[of x j] by auto
  show "bit (rotl32 x n) k = bit (word_rotl (nat n) x) k"
  proof (cases "m \<le> k")
    case True
    then have "(k + (32 - m)) mod 32 = k - m" using k m
      by (simp add: mod_if)
    moreover have "\<not> bit x (32 - m + k)" using True by (intro oob) simp
    ultimately show ?thesis using k m True
      unfolding rotl32_def rotl32_AND31[OF assms] m_def[symmetric]
      by (simp add: bit_simps)
  next
    case False
    then have "(k + (32 - m)) mod 32 = 32 - m + k" using k m by simp
    then show ?thesis using k m False
      unfolding rotl32_def rotl32_AND31[OF assms] m_def[symmetric]
      by (simp add: bit_simps)
  qed
qed

lemma rotl32_spec:
  "rotl32 x 16 = spec_rotateLeft32 x 16" "rotl32 x 12 = spec_rotateLeft32 x 12"
  "rotl32 x 8 = spec_rotateLeft32 x 8" "rotl32 x 7 = spec_rotateLeft32 x 7"
  by (simp_all add: rotl32_word_rotl spec_rotateLeft32_def)

lemma chacha20_quarterround_length [simp]:
  "length (chacha20_quarterround x a b c d) = length x"
  by (simp add: chacha20_quarterround_def Let_def)

lemma chacha20_quarterround_spec:
  assumes "distinct [a, b, c, d]" "a < length x" "b < length x" "c < length x" "d < length x"
  shows "chacha20_quarterround x a b c d = spec_quarter_round_at x (a, b, c, d)"
  using assms
  apply (simp add: chacha20_quarterround_def spec_quarter_round_at_def spec_quarter_round_def rotl32_spec Let_def)
  apply (rule nth_equalityI)
   apply simp
  apply (simp add: nth_list_update)
  done

lemma chacha20_block_rounds_body_length [simp]:
  "length (chacha20_block_rounds_body x) = length x"
  by (simp add: chacha20_block_rounds_body_def Let_def)

lemma chacha20_block_rounds_body_spec:
  assumes "length x = 16"
  shows "chacha20_block_rounds_body x = spec_double_round x"
  using assms
  by (simp add: chacha20_block_rounds_body_def spec_double_round_def spec_column_groups_def
      spec_diagonal_groups_def Let_def chacha20_quarterround_spec [symmetric])

lemma chacha20_block_rounds_length [simp]:
  "length (chacha20_block_rounds i x) = length x"
  by (induction i x rule: chacha20_block_rounds.induct)
     (subst chacha20_block_rounds.simps, simp)

lemma chacha20_block_rounds_funpow:
  "chacha20_block_rounds (2 * int n) x = (chacha20_block_rounds_body ^^ n) x"
proof (induction n arbitrary: x)
  case 0
  then show ?case by (subst chacha20_block_rounds.simps) simp
next
  case (Suc n)
  have "chacha20_block_rounds (2 * int (Suc n)) x
        = chacha20_block_rounds (2 * int n) (chacha20_block_rounds_body x)"
    by (subst chacha20_block_rounds.simps) (simp add: algebra_simps)
  then show ?case
    by (simp add: Suc funpow_swap1)
qed

lemma funpow_body_spec:
  assumes "length x = 16"
  shows "(chacha20_block_rounds_body ^^ n) x = (spec_double_round ^^ n) x"
proof (induction n)
  case 0
  then show ?case by simp
next
  case (Suc n)
  have "length ((chacha20_block_rounds_body ^^ n) x) = 16"
    using assms by (induction n) simp_all
  then show ?case
    using Suc by (simp add: chacha20_block_rounds_body_spec)
qed

lemma feedforward_fold:
  assumes "n \<le> length x" "n \<le> length inp"
  shows "fold (\<lambda>i x. x[i := x ! i + inp ! i]) [0..<n] x
         = map2 (+) (take n x) (take n inp) @ drop n x"
  using assms
proof (induction n)
  case 0
  then show ?case by simp
next
  case (Suc n)
  then have IH: "fold (\<lambda>i x. x[i := x ! i + inp ! i]) [0..<n] x
         = map2 (+) (take n x) (take n inp) @ drop n x"
    by simp
  have len: "length (map2 (+) (take n x) (take n inp)) = n"
    using Suc.prems by simp
  show ?case
    using Suc.prems
    by (simp add: IH nth_append len list_update_append take_Suc_conv_app_nth
        Cons_nth_drop_Suc [symmetric] del: upt_Suc add: upt_Suc_append)
qed

lemma spec_wordToLittleEndianBytes_unfold:
  "spec_wordToLittleEndianBytes v =
     [ucast v, ucast (drop_bit 8 v), ucast (drop_bit 16 v), ucast (drop_bit 24 v)]"
  by (simp add: spec_wordToLittleEndianBytes_def upt_rec byte_of_word)

lemma spec_wordToLittleEndianBytes_length [simp]:
  "length (spec_wordToLittleEndianBytes v) = 4"
  by (simp add: spec_wordToLittleEndianBytes_def)

lemma u32t8le_append:
  assumes "off + 4 \<le> length p"
  shows "u32t8le v p off = take off p @ spec_wordToLittleEndianBytes v @ drop (off + 4) p"
proof (rule nth_equalityI)
  show "length (u32t8le v p off)
        = length (take off p @ spec_wordToLittleEndianBytes v @ drop (off + 4) p)"
    using assms by (simp add: u32t8le_length)
next
  fix k
  assume "k < length (u32t8le v p off)"
  then have k: "k < length p"
    by (simp add: u32t8le_length)
  consider "k < off" | "k = off" | "k = off + 1" | "k = off + 2" | "k = off + 3" | "off + 4 \<le> k"
    by linarith
  then show "u32t8le v p off ! k
        = (take off p @ spec_wordToLittleEndianBytes v @ drop (off + 4) p) ! k"
    using assms k
    by cases (simp_all add: u32t8le_nth nth_append spec_wordToLittleEndianBytes_unfold)
qed

lemma concat_bytes_length:
  "length (concat (map spec_wordToLittleEndianBytes ws)) = 4 * length ws"
  by (induction ws) simp_all

lemma serialize_fold:
  assumes "n \<le> length x" "4 * n \<le> length out"
  shows "fold (\<lambda>i output. u32t8le (x ! i) output (push_bit 2 i)) [0..<n] out
         = concat (map spec_wordToLittleEndianBytes (take n x)) @ drop (4 * n) out"
  using assms
proof (induction n)
  case 0
  then show ?case by simp
next
  case (Suc n)
  let ?pre = "concat (map spec_wordToLittleEndianBytes (take n x))"
  have IH: "fold (\<lambda>i output. u32t8le (x ! i) output (push_bit 2 i)) [0..<n] out
         = ?pre @ drop (4 * n) out"
    using Suc by simp
  have len: "length ?pre = 4 * n"
    using Suc.prems by (simp add: concat_bytes_length)
  have off: "push_bit 2 n = 4 * n"
    by (simp add: push_bit_eq_mult)
  have "u32t8le (x ! n) (?pre @ drop (4 * n) out) (4 * n)
        = ?pre @ spec_wordToLittleEndianBytes (x ! n) @ drop (4 * Suc n) out"
    using Suc.prems len by (subst u32t8le_append) (simp_all add: algebra_simps)
  then show ?case
    using Suc.prems
    by (simp add: IH off take_Suc_conv_app_nth del: upt_Suc add: upt_Suc_append)
qed

lemma chacha20_serialize_spec:
  assumes "length x = 16" "length out = 64"
  shows "chacha20_serialize x out = concat (map spec_wordToLittleEndianBytes x)"
  using serialize_fold [of 16 x out] assms
  by (simp add: chacha20_serialize_def)

lemma chacha20_block_general:
  assumes "length inp = 16" "length out = 64"
  shows "chacha20_block inp out r =
     (inp, concat (map spec_wordToLittleEndianBytes
                    (map2 (+) (chacha20_block_rounds r inp) inp)))"
proof -
  let ?x = "chacha20_block_rounds r inp"
  have l: "length ?x = 16"
    using assms(1) by simp
  have f: "fold (\<lambda>i x. x[i := x ! i + inp ! i]) [0..<16] ?x = map2 (+) ?x inp"
    using feedforward_fold [of 16 ?x inp] assms(1) l
    by (simp only: take_all [OF eq_imp_le] drop_all [OF eq_imp_le] append_Nil2 order_refl)
  have fl: "length (map2 (+) ?x inp) = 16"
    using assms(1) l by simp
  show ?thesis
    unfolding chacha20_block_def Let_def
    using assms
    by (simp only: take_all [OF eq_imp_le] f chacha20_serialize_spec [OF fl])
qed

lemma chacha20_block_spec:
  assumes "length inp = 16" "length out = 64"
  shows "chacha20_block inp out (2 * int n) = (inp, spec_block_transform inp (2 * n))"
proof -
  have r: "chacha20_block_rounds (2 * int n) inp = (spec_double_round ^^ n) inp"
    using assms(1) by (simp only: chacha20_block_rounds_funpow funpow_body_spec)
  have d: "2 * n div 2 = n"
    by simp
  show ?thesis
    unfolding chacha20_block_general [OF assms] spec_block_transform_def Let_def d r ..
qed

lemma chacha20_block_even:
  assumes "length inp = 16" "length out = 64" "0 \<le> r" "even r"
  shows "chacha20_block inp out r = (inp, spec_block_transform inp (nat r))"
proof -
  from assms(3,4) obtain n where r: "r = 2 * int n"
    by (metis evenE nonneg_int_cases zero_le_mult_iff not_numeral_le_zero)
  then have "nat r = 2 * n"
    by simp
  with chacha20_block_spec [OF assms(1,2), of n] r show ?thesis
    by simp
qed

lemma chacha20_block_snd_length:
  assumes "length inp = 16" "length out = 64"
  shows "length (snd (chacha20_block inp out r)) = 64"
proof -
  have "length (map2 (+) (chacha20_block_rounds r inp) inp) = 16"
    using assms(1) by simp
  then show ?thesis
    unfolding chacha20_block_general [OF assms] snd_conv concat_bytes_length by simp
qed

text \<open>
  Claim C3. For a 16-word state, a 64-byte output array and an even round count
  \<open>r \<ge> 0\<close>, the bytes that \<^verbatim>\<open>chacha20_block\<close> writes are those of the block
  transform of the specification: \<open>r / 2\<close> double rounds on a copy of the state
  (quarter rounds on the four column groups, then on the four diagonal groups, each
  with wrapping additions and left rotations by 16, 12, 8 and 7), word-wise wrapping
  addition of the original state, and the 16 words as little-endian bytes, word 0 first.
\<close>

theorem chacha20_block_refines_spec:
  assumes "length st = 16" "length out = 64" "0 \<le> r" "even r"
  shows "snd (chacha20_block st out r) = spec_block_transform st (nat r)"
  using chacha20_block_even [OF assms] by simp

text \<open>
  Claim C9. The state array that the caller passes is the same after the call as
  before, for every state and every round count; and the bytes written for a 16-word
  state do not depend on what the 64-byte output array held before: they are a
  function of the state and the round count alone.
\<close>

theorem chacha20_block_state_unchanged:
  "fst (chacha20_block st out r) = st
   \<and> (length st = 16 \<and> length out = 64 \<and> length out' = 64
        \<longrightarrow> snd (chacha20_block st out r) = snd (chacha20_block st out' r))"
  by (simp add: chacha20_block_general) (simp add: chacha20_block_def Let_def)

theorem chacha20_block_state_unchanged_witness:
  "fst (chacha20_block [1, 2, 3, 4, 5, 6, 7, 8, 9, 10, 11, 12, 13, 14, 15, 16] (replicate 64 0) 20)
     = [1, 2, 3, 4, 5, 6, 7, 8, 9, 10, 11, 12, 13, 14, 15, 16]
   \<and> snd (chacha20_block [1, 2, 3, 4, 5, 6, 7, 8, 9, 10, 11, 12, 13, 14, 15, 16] (replicate 64 0) 20)
     = snd (chacha20_block [1, 2, 3, 4, 5, 6, 7, 8, 9, 10, 11, 12, 13, 14, 15, 16] (replicate 64 255) 20)"
  using chacha20_block_state_unchanged
    [of "[1, 2, 3, 4, 5, 6, 7, 8, 9, 10, 11, 12, 13, 14, 15, 16]" "replicate 64 0" 20 "replicate 64 255"]
  by simp

section \<open>State initialisation: layout\<close>

lemma list_update_Cons_numeral: "(x # xs)[numeral v := y] = x # xs[pred_numeral v := y]"
  by (simp add: numeral_eq_Suc)

lemma spec_constant_text_bytes:
  "spec_constant_text = [101, 120, 112, 97, 110, 100, 32, 51, 50, 45, 98, 121, 116, 101, 32, 107]"
  by (simp add: spec_constant_text_def)

lemma shift_or_add:
  fixes x :: u32 and b :: u8
  shows "push_bit 8 x OR ucast b = 256 * x + ucast b"
proof -
  have "push_bit 8 x + ucast b = push_bit 8 x OR ucast b"
    by (rule disjunctive_add) (auto simp add: bit_simps dest: bit_imp_le_length)
  then show ?thesis
    by (simp add: push_bit_eq_mult mult.commute)
qed

lemma u8t32le_weighted:
  "u8t32le p off = spec_littleEndianBytesToWord [p ! (off + 0), p ! (off + 1), p ! (off + 2), p ! (off + 3)]"
  unfolding u8t32le_def Let_def shift_or_add
  by (simp add: spec_littleEndianBytesToWord_def)

lemma take4_drop:
  assumes "off + 4 \<le> length p"
  shows "take 4 (drop off p) = [p ! (off + 0), p ! (off + 1), p ! (off + 2), p ! (off + 3)]"
proof (rule nth_equalityI)
  show "length (take 4 (drop off p))
        = length [p ! (off + 0), p ! (off + 1), p ! (off + 2), p ! (off + 3)]"
    using assms by simp
next
  fix i
  assume "i < length (take 4 (drop off p))"
  then have "i < 4"
    by simp
  then consider "i = 0" | "i = 1" | "i = 2" | "i = 3"
    by fastforce
  then show "take 4 (drop off p) ! i
             = [p ! (off + 0), p ! (off + 1), p ! (off + 2), p ! (off + 3)] ! i"
    using assms by cases simp_all
qed

lemma u8t32le_spec:
  assumes "off + 4 \<le> length p"
  shows "u8t32le p off = spec_littleEndianBytesToWord (take 4 (drop off p))"
  by (simp only: take4_drop [OF assms] u8t32le_weighted)

lemma chacha20_init_state_explicit:
  assumes "length s = 16"
  shows "chacha20_init_state s key counter nonce =
    [0x61707865, 0x3320646e, 0x79622d32, 0x6b206574,
     u8t32le key 0, u8t32le key 4, u8t32le key 8, u8t32le key 12,
     u8t32le key 16, u8t32le key 20, u8t32le key 24, u8t32le key 28,
     counter, u8t32le nonce 0, u8t32le nonce 4, u8t32le nonce 8]"
proof -
  from assms obtain s0 s1 s2 s3 s4 s5 s6 s7 s8 s9 s10 s11 s12 s13 s14 s15
    where s: "s = [s0, s1, s2, s3, s4, s5, s6, s7, s8, s9, s10, s11, s12, s13, s14, s15]"
    by (auto simp add: numeral_eq_Suc length_Suc_conv)
  show ?thesis
    unfolding s chacha20_init_state_def Let_def
    by (simp add: upt_rec list_update_Cons_numeral)
qed

lemma chacha20_init_state_length:
  assumes "length s = 16"
  shows "length (chacha20_init_state s key counter nonce) = 16"
  by (simp add: chacha20_init_state_explicit [OF assms])

lemma chacha20_init_state_counter:
  assumes "length s = 16"
  shows "chacha20_init_state s key counter nonce ! 12 = counter"
    and "(chacha20_init_state s key counter nonce)[12 := c] = chacha20_init_state s key c nonce"
  by (simp_all add: chacha20_init_state_explicit [OF assms] list_update_Cons_numeral)

lemma spec_littleEndianWords_key:
  assumes "length key = 32"
  shows "spec_littleEndianWords key 8 =
     [u8t32le key 0, u8t32le key 4, u8t32le key 8, u8t32le key 12,
      u8t32le key 16, u8t32le key 20, u8t32le key 24, u8t32le key 28]"
  using assms by (simp add: spec_littleEndianWords_def upt_rec u8t32le_spec)

lemma spec_littleEndianWords_nonce:
  assumes "length nonce = 12"
  shows "spec_littleEndianWords nonce 3 = [u8t32le nonce 0, u8t32le nonce 4, u8t32le nonce 8]"
  using assms by (simp add: spec_littleEndianWords_def upt_rec u8t32le_spec)

lemma spec_constant_words:
  "spec_littleEndianWords spec_constant_text 4 = [0x61707865, 0x3320646e, 0x79622d32, 0x6b206574]"
  by (simp add: spec_littleEndianWords_def upt_rec spec_constant_text_bytes
      spec_littleEndianBytesToWord_def)

text \<open>
  Claim C7. For a 16-word array and a 32-byte key and a 12-byte nonce (the sizes of the
  C parameter declarations), \<^verbatim>\<open>chacha20_init_state\<close> writes: the four constants to
  words 0 to 3, which are the four little-endian words of the text
  \<open>expand 32-byte k\<close>; the eight little-endian words of the key to words 4 to 11;
  the counter argument to word 12; the three little-endian words of the nonce to
  words 13 to 15.
\<close>

theorem chacha20_init_state_layout:
  assumes "length s = 16" "length key = 32" "length nonce = 12"
  shows "chacha20_init_state s key counter nonce =
           [0x61707865, 0x3320646e, 0x79622d32, 0x6b206574]
           @ spec_littleEndianWords key 8 @ [counter] @ spec_littleEndianWords nonce 3
       \<and> [0x61707865, 0x3320646e, 0x79622d32, 0x6b206574]
           = spec_littleEndianWords spec_constant_text 4"
  by (simp add: chacha20_init_state_explicit [OF assms(1)] spec_littleEndianWords_key [OF assms(2)]
      spec_littleEndianWords_nonce [OF assms(3)] spec_constant_words)

theorem chacha20_init_state_layout_witness:
  "length (replicate 16 (0 :: u32)) = 16 \<and> length (replicate 32 (1 :: u8)) = 32
   \<and> length (replicate 12 (2 :: u8)) = 12
   \<and> chacha20_init_state (replicate 16 0) (replicate 32 1) 7 (replicate 12 2) =
           [0x61707865, 0x3320646e, 0x79622d32, 0x6b206574]
           @ spec_littleEndianWords (replicate 32 1) 8 @ [7]
           @ spec_littleEndianWords (replicate 12 2) 3"
proof -
  have h: "length (replicate 16 (0 :: u32)) = 16" "length (replicate 32 (1 :: u8)) = 32"
    "length (replicate 12 (2 :: u8)) = 12"
    by simp_all
  from chacha20_init_state_layout [OF h, of 7] h show ?thesis
    by blast
qed

section \<open>Counter-mode loops\<close>

lemma ChaCha20XOR_inner_result:
  assumes "m \<le> n" "n \<le> m + 64" "int m + 64 \<le> INT_MAX" "length block = 64"
    "L \<le> length inp" "L \<le> length out"
  shows "\<exists>out'. ChaCha20XOR_inner (int n) (int m) (int L) inp block out = Inr out'
           \<and> length out' = length out
           \<and> (\<forall>t<length out. out' ! t =
                 (if n \<le> t \<and> t < m + 64 \<and> t < L then inp ! t XOR block ! (t - m) else out ! t))"
  using assms
proof (induction "m + 64 - n" arbitrary: n out)
  case 0
  then have "n = m + 64"
    by simp
  then show ?case
    using "0.prems" by (subst ChaCha20XOR_inner.simps) (auto simp add: INT_MAX_def)
next
  case (Suc k)
  then have n: "n < m + 64"
    by simp
  show ?case
  proof (cases "n < L")
    case False
    then show ?thesis
      using Suc.prems n by (subst ChaCha20XOR_inner.simps) (auto simp add: INT_MAX_def)
  next
    case True
    let ?out1 = "out[n := inp ! n XOR block ! (n - m)]"
    have step: "ChaCha20XOR_inner (int n) (int m) (int L) inp block out
                = ChaCha20XOR_inner (int (Suc n)) (int m) (int L) inp block ?out1"
      using Suc.prems n True
      by (subst ChaCha20XOR_inner.simps) (simp add: INT_MAX_def nat_diff_distrib' add.commute)
    have "k = m + 64 - Suc n"
      using Suc.hyps(2) by simp
    from Suc.hyps(1) [OF this, of ?out1] Suc.prems n
    obtain out' where o: "ChaCha20XOR_inner (int (Suc n)) (int m) (int L) inp block ?out1 = Inr out'"
      "length out' = length out"
      "\<forall>t<length out. out' ! t =
         (if Suc n \<le> t \<and> t < m + 64 \<and> t < L then inp ! t XOR block ! (t - m) else ?out1 ! t)"
      by auto
    have "out' ! t = (if n \<le> t \<and> t < m + 64 \<and> t < L then inp ! t XOR block ! (t - m) else out ! t)"
      if "t < length out" for t
      using o(3) that n True by (cases "t = n") (auto simp add: nth_list_update)
    then show ?thesis
      using step o(1,2) by simp
  qed
qed

lemma chacha20_block_any_buffer:
  assumes "length s = 16" "length block = 64"
  shows "chacha20_block s block r = (s, snd (chacha20_block s (replicate 64 0) r))"
proof -
  have "length (replicate 64 (0 :: u8)) = 64"
    by simp
  from chacha20_block_general [OF assms(1) this] chacha20_block_general [OF assms]
  show ?thesis
    by (simp only: snd_conv)
qed

lemma counter_blocks_step:
  assumes "m < L"
  shows "(L - m + 63) div 64 = Suc ((L - (m + 64) + 63) div 64)"
  using assms by (cases "m + 64 \<le> L") (simp_all add: div_nat_eqI)

lemma ChaCha20XOR_outer_result:
  assumes "length s = 16" "length block = 64" "int L \<le> INT_MAX - 63"
    "L \<le> length inp" "L \<le> length out"
  shows "\<exists>out'. ChaCha20XOR_outer (int m) (int L) inp s block out
             = Inr (s[12 := s ! 12 + word_of_nat ((L - m + 63) div 64)], out')
           \<and> length out' = length out
           \<and> (\<forall>t<length out. out' ! t =
                 (if m \<le> t \<and> t < L
                  then inp ! t XOR
                       snd (chacha20_block (s[12 := s ! 12 + word_of_nat ((t - m) div 64)])
                              (replicate 64 0) 20) ! ((t - m) mod 64)
                  else out ! t))"
  using assms
proof (induction "L - m" arbitrary: m s block out rule: less_induct)
  case less
  show ?case
  proof (cases "m < L")
    case False
    then have "(L - m + 63) div 64 = 0"
      by simp
    then show ?thesis
      using False less.prems(1) by (subst ChaCha20XOR_outer.simps) auto
  next
    case True
    define blk where "blk = snd (chacha20_block s (replicate 64 0) 20)"
    define s1 where "s1 = s[12 := s ! 12 + 1]"
    have blk: "chacha20_block s block 20 = (s, blk)" "length blk = 64"
    proof -
      show "chacha20_block s block 20 = (s, blk)"
        unfolding blk_def by (rule chacha20_block_any_buffer [OF less.prems(1,2)])
      show "length blk = 64"
        unfolding blk_def by (rule chacha20_block_snd_length [OF less.prems(1)]) simp
    qed
    have s1: "length s1 = 16" "s1 ! 12 = s ! 12 + 1"
      using less.prems(1) by (simp_all add: s1_def)
    have ovf: "int m + 64 \<le> INT_MAX"
      using True less.prems(3) by (simp add: INT_MAX_def)
    from ChaCha20XOR_inner_result [of m m blk L inp out, OF le_refl le_add1 ovf blk(2) less.prems(4,5)]
    obtain out1 where o1: "ChaCha20XOR_inner (int m) (int m) (int L) inp blk out = Inr out1"
      "length out1 = length out"
      "\<forall>t<length out. out1 ! t =
         (if m \<le> t \<and> t < m + 64 \<and> t < L then inp ! t XOR blk ! (t - m) else out ! t)"
      by auto
    have step: "ChaCha20XOR_outer (int m) (int L) inp s block out
                = ChaCha20XOR_outer (int (m + 64)) (int L) inp s1 blk out1"
      using True
      by (subst ChaCha20XOR_outer.simps) (simp add: blk(1) o1(1) s1_def)
    have "L - (m + 64) < L - m"
      using True by simp
    from less.hyps [OF this s1(1) blk(2) less.prems(3,4)] less.prems(5) o1(2)
    obtain out' where o: "ChaCha20XOR_outer (int (m + 64)) (int L) inp s1 blk out1
             = Inr (s1[12 := s1 ! 12 + word_of_nat ((L - (m + 64) + 63) div 64)], out')"
      "length out' = length out"
      "\<forall>t<length out. out' ! t =
                 (if m + 64 \<le> t \<and> t < L
                  then inp ! t XOR
                       snd (chacha20_block (s1[12 := s1 ! 12 + word_of_nat ((t - (m + 64)) div 64)])
                              (replicate 64 0) 20) ! ((t - (m + 64)) mod 64)
                  else out1 ! t)"
      by (metis (no_types, lifting))
    have upd: "s1[12 := s1 ! 12 + word_of_nat k] = s[12 := s ! 12 + word_of_nat (Suc k)]" for k
    proof -
      have "s1[12 := s1 ! 12 + word_of_nat k] = s1[12 := s ! 12 + word_of_nat (Suc k)]"
        by (simp add: s1(2) ac_simps)
      also have "\<dots> = s[12 := s ! 12 + word_of_nat (Suc k)]"
        by (simp add: s1_def)
      finally show ?thesis .
    qed
    have fin: "s1[12 := s1 ! 12 + word_of_nat ((L - (m + 64) + 63) div 64)]
               = s[12 := s ! 12 + word_of_nat ((L - m + 63) div 64)]"
      by (simp only: upd counter_blocks_step [OF True])
    have "out' ! t = (if m \<le> t \<and> t < L
                  then inp ! t XOR
                       snd (chacha20_block (s[12 := s ! 12 + word_of_nat ((t - m) div 64)])
                              (replicate 64 0) 20) ! ((t - m) mod 64)
                  else out ! t)" if t: "t < length out" for t
    proof -
      consider "t < m" | "m \<le> t" "t < m + 64" "t < L" | "m + 64 \<le> t" "t < L" | "L \<le> t"
        by linarith
      then show ?thesis
      proof cases
        case 1
        then have "out' ! t = out1 ! t"
          using o(3) t by simp
        also have "\<dots> = out ! t"
          using o1(3) t 1 by simp
        finally show ?thesis
          using 1 by simp
      next
        case 2
        then have "out' ! t = out1 ! t"
          using o(3) t by simp
        also have "\<dots> = inp ! t XOR blk ! (t - m)"
          using o1(3) t 2 by simp
        finally have a: "out' ! t = inp ! t XOR blk ! (t - m)" .
        have "t - m < 64"
          using 2 by simp
        then have d: "(t - m) div 64 = 0" "(t - m) mod 64 = t - m"
          by simp_all
        have "s[12 := s ! 12 + word_of_nat 0] = s"
          by simp
        then show ?thesis
          unfolding d blk_def [symmetric] using a 2 by (simp add: blk_def)
      next
        case 3
        have d: "(t - m) div 64 = Suc ((t - (m + 64)) div 64)"
          "(t - m) mod 64 = (t - (m + 64)) mod 64"
        proof -
          have e: "t - m = (t - (m + 64)) + 64"
            using 3(1) by simp
          show "(t - m) div 64 = Suc ((t - (m + 64)) div 64)"
            by (subst e) simp
          show "(t - m) mod 64 = (t - (m + 64)) mod 64"
            by (subst e) simp
        qed
        have "out' ! t = inp ! t XOR
                       snd (chacha20_block (s1[12 := s1 ! 12 + word_of_nat ((t - (m + 64)) div 64)])
                              (replicate 64 0) 20) ! ((t - (m + 64)) mod 64)"
          using o(3) t 3 by simp
        then show ?thesis
          unfolding d upd using 3 by simp
      next
        case 4
        then have "out' ! t = out1 ! t"
          using o(3) t by simp
        also have "\<dots> = out ! t"
          using o1(3) t 4 by simp
        finally show ?thesis
          using 4 by simp
      qed
    qed
    note body = this
    have "ChaCha20XOR_outer (int m) (int L) inp s block out
          = Inr (s[12 := s ! 12 + word_of_nat ((L - m + 63) div 64)], out')"
      unfolding step o(1) fin ..
    with o(2) body show ?thesis
      by blast
  qed
qed

section \<open>The result of \<^verbatim>\<open>ChaCha20XOR\<close>\<close>

lemma keystream_byte_state:
  "snd (chacha20_block
         ((chacha20_init_state (replicate 16 0) key counter nonce)
            [12 := chacha20_init_state (replicate 16 0) key counter nonce ! 12 + word_of_nat (t div 64)])
         (replicate 64 0) 20) ! (t mod 64)
   = keystream_byte key counter nonce t"
proof -
  have l: "length (replicate 16 (0 :: u32)) = 16"
    by simp
  show ?thesis
    unfolding keystream_byte_def chacha20_init_state_counter [OF l] ..
qed

lemma ChaCha20XOR_result:
  assumes "int L \<le> INT_MAX - 63" "L \<le> length inp" "L \<le> length out"
  shows "ChaCha20XOR key counter nonce inp out (int L) =
     Inr (chacha20_init_state (replicate 16 0) key (counter + word_of_nat ((L + 63) div 64)) nonce,
          map (\<lambda>t. inp ! t XOR keystream_byte key counter nonce t) [0..<L] @ drop L out)"
proof -
  let ?s = "chacha20_init_state (replicate 16 0) key counter nonce"
  have l: "length (replicate 16 (0 :: u32)) = 16"
    by simp
  have ls: "length ?s = 16"
    by (rule chacha20_init_state_length [OF l])
  have lb: "length (replicate 64 (0 :: u8)) = 64"
    by simp
  from ChaCha20XOR_outer_result [OF ls lb assms, of 0]
  obtain out' where o: "ChaCha20XOR_outer 0 (int L) inp ?s (replicate 64 0) out
             = Inr (?s[12 := ?s ! 12 + word_of_nat ((L + 63) div 64)], out')"
    "length out' = length out"
    "\<forall>t<length out. out' ! t =
                 (if t < L
                  then inp ! t XOR
                       snd (chacha20_block (?s[12 := ?s ! 12 + word_of_nat (t div 64)])
                              (replicate 64 0) 20) ! (t mod 64)
                  else out ! t)"
    by auto
  have fin: "?s[12 := ?s ! 12 + word_of_nat ((L + 63) div 64)]
        = chacha20_init_state (replicate 16 0) key (counter + word_of_nat ((L + 63) div 64)) nonce"
    unfolding chacha20_init_state_counter [OF l] ..
  have "out' = map (\<lambda>t. inp ! t XOR keystream_byte key counter nonce t) [0..<L] @ drop L out"
  proof (rule nth_equalityI)
    show "length out' = length (map (\<lambda>t. inp ! t XOR keystream_byte key counter nonce t) [0..<L]
                                @ drop L out)"
      using o(2) assms(3) by simp
  next
    fix t
    assume "t < length out'"
    then have t: "t < length out"
      by (simp add: o(2))
    show "out' ! t = (map (\<lambda>t. inp ! t XOR keystream_byte key counter nonce t) [0..<L]
                      @ drop L out) ! t"
    proof (cases "t < L")
      case True
      then show ?thesis
        using o(3) t by (simp add: nth_append keystream_byte_state)
    next
      case False
      then show ?thesis
        using o(3) t assms(3) by (simp add: nth_append)
    qed
  qed
  then show ?thesis
    unfolding ChaCha20XOR_def Let_def o(1) fin by simp
qed

text \<open>For \<^verbatim>\<open>inlen\<close> zero or negative the loop is not entered.\<close>

lemma ChaCha20XOR_nonpositive:
  assumes "inlen \<le> 0"
  shows "ChaCha20XOR key counter nonce inp out inlen =
     Inr (chacha20_init_state (replicate 16 0) key counter nonce, out)"
  using assms unfolding ChaCha20XOR_def Let_def
  by (subst ChaCha20XOR_outer.simps) simp

section \<open>Round trip and prefix stability\<close>

lemma xor_stream_involution:
  assumes "length c = L" "\<forall>t<L. c ! t = p ! t XOR (k t :: u8)" "length p = L"
  shows "map (\<lambda>t. c ! t XOR k t) [0..<L] = p"
  using assms by (intro nth_equalityI) (simp_all add: xor.assoc)

text \<open>
  The round trip of claim C1, for the lengths within the range of the loop index
  (at most \<open>INT_MAX - 63\<close>). For a 32-byte key,
  any counter, a 12-byte nonce and a plaintext of length \<open>L\<close> (lengths 0, 1, 63,
  64, 65 and 1000 included): the call on the plaintext returns a ciphertext of
  length \<open>L\<close>, and the call with the same key, counter and nonce on that ciphertext
  returns the plaintext. \<open>L\<close> is the value of the parameter \<^verbatim>\<open>int inlen\<close> and is at
  most \<open>INT_MAX - 63\<close>; the output buffers hold \<open>L\<close> bytes.
\<close>

theorem ChaCha20XOR_round_trip:
  assumes "length key = 32" "length nonce = 12"
    and "int (length plaintext) \<le> INT_MAX - 63"
    and "length out0 = length plaintext" "length out1 = length plaintext"
  shows "\<exists>s ciphertext s'.
           ChaCha20XOR key counter nonce plaintext out0 (int (length plaintext)) = Inr (s, ciphertext)
         \<and> length ciphertext = length plaintext
         \<and> ChaCha20XOR key counter nonce ciphertext out1 (int (length plaintext)) = Inr (s', plaintext)"
proof -
  let ?L = "length plaintext"
  let ?c = "map (\<lambda>t. plaintext ! t XOR keystream_byte key counter nonce t) [0..<?L]"
  have e: "ChaCha20XOR key counter nonce plaintext out0 (int ?L) =
     Inr (chacha20_init_state (replicate 16 0) key (counter + word_of_nat ((?L + 63) div 64)) nonce, ?c)"
    using ChaCha20XOR_result [OF assms(3), of plaintext out0 key counter nonce] assms(4)
    by simp
  have lc: "length ?c = ?L"
    by simp
  have d: "ChaCha20XOR key counter nonce ?c out1 (int ?L) =
     Inr (chacha20_init_state (replicate 16 0) key (counter + word_of_nat ((?L + 63) div 64)) nonce,
          map (\<lambda>t. ?c ! t XOR keystream_byte key counter nonce t) [0..<?L])"
    using ChaCha20XOR_result [OF assms(3), of ?c out1 key counter nonce] assms(5)
    by simp
  have "map (\<lambda>t. ?c ! t XOR keystream_byte key counter nonce t) [0..<?L] = plaintext"
    by (rule xor_stream_involution) simp_all
  with e d lc show ?thesis
    by (metis (no_types, lifting))
qed

theorem ChaCha20XOR_round_trip_witness:
  "length (replicate 32 (0 :: u8)) = 32 \<and> length (replicate 12 (0 :: u8)) = 12
   \<and> int (length [1, 2, 3 :: u8]) \<le> INT_MAX - 63
   \<and> length [0, 0, 0 :: u8] = length [1, 2, 3 :: u8]
   \<and> (\<exists>s ciphertext s'.
           ChaCha20XOR (replicate 32 0) 5 (replicate 12 0) [1, 2, 3] [0, 0, 0] (int (length [1, 2, 3 :: u8]))
             = Inr (s, ciphertext)
         \<and> length ciphertext = length [1, 2, 3 :: u8]
         \<and> ChaCha20XOR (replicate 32 0) 5 (replicate 12 0) ciphertext [0, 0, 0] (int (length [1, 2, 3 :: u8]))
             = Inr (s', [1, 2, 3]))"
proof -
  have h: "length (replicate 32 (0 :: u8)) = 32" "length (replicate 12 (0 :: u8)) = 12"
    "int (length [1, 2, 3 :: u8]) \<le> INT_MAX - 63"
    "length [0, 0, 0 :: u8] = length [1, 2, 3 :: u8]"
    by (simp_all add: INT_MAX_def)
  note c = ChaCha20XOR_round_trip [OF h(1,2,3,4,4), of 5]
  show ?thesis
    by (intro conjI h c)
qed

text \<open>
  The prefix stability of claim C10, for the lengths within the range of the loop
  index. For every
  \<open>k \<le> L\<close>, the first \<open>k\<close> bytes of the output for the \<open>L\<close>-byte input are the
  output for the input cut to its first \<open>k\<close> bytes; the output byte at index \<open>j\<close>
  is input byte \<open>j\<close> XOR a keystream byte that depends on the key, the counter, the
  nonce and \<open>j\<close> only. \<open>L\<close> is at most \<open>INT_MAX - 63\<close>.
\<close>

theorem ChaCha20XOR_prefix_stable:
  assumes "length key = 32" "length nonce = 12"
    and "int (length inp) \<le> INT_MAX - 63" "length out = length inp"
    and "k \<le> length inp" "length outk = k"
  shows "\<exists>s out' sk outk'.
           ChaCha20XOR key counter nonce inp out (int (length inp)) = Inr (s, out')
         \<and> ChaCha20XOR key counter nonce (take k inp) outk (int k) = Inr (sk, outk')
         \<and> take k out' = outk'
         \<and> (\<forall>j<length inp. out' ! j = inp ! j XOR keystream_byte key counter nonce j)"
proof -
  let ?L = "length inp"
  let ?f = "\<lambda>t. inp ! t XOR keystream_byte key counter nonce t"
  have e: "ChaCha20XOR key counter nonce inp out (int ?L) =
     Inr (chacha20_init_state (replicate 16 0) key (counter + word_of_nat ((?L + 63) div 64)) nonce,
          map ?f [0..<?L])"
    using ChaCha20XOR_result [OF assms(3), of inp out key counter nonce] assms(4)
    by simp
  have k: "int k \<le> INT_MAX - 63"
    using assms(3,5) by simp
  have "map (\<lambda>t. take k inp ! t XOR keystream_byte key counter nonce t) [0..<k] = map ?f [0..<k]"
    by simp
  then have d: "ChaCha20XOR key counter nonce (take k inp) outk (int k) =
     Inr (chacha20_init_state (replicate 16 0) key (counter + word_of_nat ((k + 63) div 64)) nonce,
          map ?f [0..<k])"
    using ChaCha20XOR_result [OF k, of "take k inp" outk key counter nonce] assms(5,6)
    by simp
  have t: "take k (map ?f [0..<?L]) = map ?f [0..<k]"
    using assms(5) by (simp add: take_map min_def)
  have n: "\<forall>j<?L. map ?f [0..<?L] ! j = ?f j"
    by simp
  from e d t n show ?thesis
    by (metis (no_types, lifting))
qed

theorem ChaCha20XOR_prefix_stable_witness:
  "length (replicate 32 (0 :: u8)) = 32 \<and> length (replicate 12 (0 :: u8)) = 12
   \<and> int (length (replicate 70 (1 :: u8))) \<le> INT_MAX - 63
   \<and> length (replicate 70 (0 :: u8)) = length (replicate 70 (1 :: u8))
   \<and> 65 \<le> length (replicate 70 (1 :: u8)) \<and> length (replicate 65 (0 :: u8)) = 65
   \<and> (\<exists>s out' sk outk'.
           ChaCha20XOR (replicate 32 0) 5 (replicate 12 0) (replicate 70 1) (replicate 70 0)
             (int (length (replicate 70 (1 :: u8)))) = Inr (s, out')
         \<and> ChaCha20XOR (replicate 32 0) 5 (replicate 12 0) (take 65 (replicate 70 1))
             (replicate 65 0) (int 65) = Inr (sk, outk')
         \<and> take 65 out' = outk'
         \<and> (\<forall>j<length (replicate 70 (1 :: u8)).
               out' ! j = replicate 70 1 ! j XOR keystream_byte (replicate 32 0) 5 (replicate 12 0) j))"
proof -
  have h: "length (replicate 32 (0 :: u8)) = 32" "length (replicate 12 (0 :: u8)) = 12"
    "int (length (replicate 70 (1 :: u8))) \<le> INT_MAX - 63"
    "length (replicate 70 (0 :: u8)) = length (replicate 70 (1 :: u8))"
    "65 \<le> length (replicate 70 (1 :: u8))" "length (replicate 65 (0 :: u8)) = 65"
    by (simp_all add: INT_MAX_def)
  note c = ChaCha20XOR_prefix_stable [OF h, of 5]
  show ?thesis
    by (intro conjI h c)
qed

section \<open>The range of the length parameter\<close>

lemma ChaCha20XOR_outer_overflow:
  assumes "length s = 16" "length block = 64" "INT_MAX - 63 < int L"
    "L \<le> length inp" "L \<le> length out" "64 dvd m" "m < L"
  shows "ChaCha20XOR_outer (int m) (int L) inp s block out = Inl SignedOverflow"
  using assms
proof (induction "nat INT_MAX + 64 - m" arbitrary: m s block out rule: less_induct)
  case less
  define blk where "blk = snd (chacha20_block s (replicate 64 0) 20)"
  have blk: "chacha20_block s block 20 = (s, blk)" "length blk = 64"
  proof -
    show "chacha20_block s block 20 = (s, blk)"
      unfolding blk_def by (rule chacha20_block_any_buffer [OF less.prems(1,2)])
    show "length blk = 64"
      unfolding blk_def by (rule chacha20_block_snd_length [OF less.prems(1)]) simp
  qed
  show ?case
  proof (cases "INT_MAX < int m + 64")
    case True
    then have "ChaCha20XOR_inner (int m) (int m) (int L) inp blk out = Inl SignedOverflow"
      by (subst ChaCha20XOR_inner.simps) simp
    then show ?thesis
      using less.prems(7)
      by (subst ChaCha20XOR_outer.simps) (simp add: blk(1))
  next
    case False
    then have ovf: "int m + 64 \<le> INT_MAX"
      by simp
    from ChaCha20XOR_inner_result [of m m blk L inp out, OF le_refl le_add1 ovf blk(2) less.prems(4,5)]
    obtain out1 where o1: "ChaCha20XOR_inner (int m) (int m) (int L) inp blk out = Inr out1"
      "length out1 = length out"
      by auto
    have step: "ChaCha20XOR_outer (int m) (int L) inp s block out
          = ChaCha20XOR_outer (int (m + 64)) (int L) inp (s[12 := s ! 12 + 1]) blk out1"
      using less.prems(7)
      by (subst ChaCha20XOR_outer.simps) (simp add: blk(1) o1(1))
    have d: "64 dvd (m + 64)"
      using less.prems(6) by simp
    have "int (m + 64) \<le> INT_MAX - 63"
      using ovf d unfolding INT_MAX_def by presburger
    then have lt: "m + 64 < L"
      using less.prems(3) by simp
    have "nat INT_MAX + 64 - (m + 64) < nat INT_MAX + 64 - m"
      using ovf by simp
    from less.hyps [OF this _ blk(2) less.prems(3,4) _ d lt, of "s[12 := s ! 12 + 1]" out1]
      less.prems(1,5) o1(2)
    show ?thesis
      unfolding step by simp
  qed
qed

text \<open>
  The limit of the parameter \<^verbatim>\<open>int inlen\<close>. For a length above \<open>INT_MAX - 63\<close> the
  loop reaches \<open>i = INT_MAX - 63\<close>, and \<^verbatim>\<open>i + 64\<close> is outside \<^verbatim>\<open>int\<close>: the behaviour
  of the C program is undefined from there. The statements about \<^verbatim>\<open>ChaCha20XOR\<close>
  in this theory are therefore about lengths up to \<open>INT_MAX - 63 = 2147483584\<close>.
\<close>

lemma ChaCha20XOR_length_limit:
  assumes "INT_MAX - 63 < int L" "L \<le> length inp" "L \<le> length out"
  shows "ChaCha20XOR key counter nonce inp out (int L) = Inl SignedOverflow"
proof -
  have l: "length (replicate 16 (0 :: u32)) = 16"
    by simp
  have "0 < L"
    using assms(1) by (simp add: INT_MAX_def)
  from ChaCha20XOR_outer_overflow [OF chacha20_init_state_length [OF l] _ assms _ this, of "replicate 64 0" key counter nonce]
  show ?thesis
    unfolding ChaCha20XOR_def Let_def by simp
qed

section \<open>Independence of the blocks\<close>

lemma keystream_byte_offset:
  assumes "r < 64"
  shows "keystream_byte key counter nonce (64 * i + r)
         = keystream_byte key (counter + word_of_nat i) nonce r"
  using assms by (simp add: keystream_byte_def)

text \<open>
  The block independence of claim C6, for the lengths within the range of the loop
  index. For a block index
  \<open>i\<close> with \<open>64 * i < L\<close>, the output bytes at the indices from \<open>64 * i\<close> up to
  \<open>min (64 * (i + 1)) L\<close> are the output of the call with the counter
  \<open>counter + i\<close> (addition of \<^verbatim>\<open>uint32_t\<close>) on the corresponding chunk of the input;
  the keystream of block \<open>i\<close> is that of block 0 for the counter \<open>counter + i\<close>.
  \<open>L\<close> is at most \<open>INT_MAX - 63\<close>.
\<close>

theorem ChaCha20XOR_block_independent:
  assumes "length key = 32" "length nonce = 12"
    and "int (length inp) \<le> INT_MAX - 63" "length out = length inp"
    and "64 * i < length inp"
    and "length outc = length (take 64 (drop (64 * i) inp))"
  shows "\<exists>s out' sc outc'.
           ChaCha20XOR key counter nonce inp out (int (length inp)) = Inr (s, out')
         \<and> ChaCha20XOR key (counter + word_of_nat i) nonce (take 64 (drop (64 * i) inp)) outc
               (int (length (take 64 (drop (64 * i) inp)))) = Inr (sc, outc')
         \<and> take 64 (drop (64 * i) out') = outc'
         \<and> (\<forall>r<64. keystream_byte key counter nonce (64 * i + r)
                      = keystream_byte key (counter + word_of_nat i) nonce r)"
proof -
  let ?L = "length inp"
  let ?chunk = "take 64 (drop (64 * i) inp)"
  let ?n = "length ?chunk"
  let ?f = "\<lambda>t. inp ! t XOR keystream_byte key counter nonce t"
  let ?g = "\<lambda>t. ?chunk ! t XOR keystream_byte key (counter + word_of_nat i) nonce t"
  have e: "ChaCha20XOR key counter nonce inp out (int ?L) =
     Inr (chacha20_init_state (replicate 16 0) key (counter + word_of_nat ((?L + 63) div 64)) nonce,
          map ?f [0..<?L])"
    using ChaCha20XOR_result [OF assms(3), of inp out key counter nonce] assms(4)
    by simp
  have n: "?n = min 64 (?L - 64 * i)" "?n \<le> 64" "64 * i + ?n \<le> ?L"
    using assms(5) by simp_all
  have k: "int ?n \<le> INT_MAX - 63"
    using n(2) by (simp add: INT_MAX_def)
  have d: "ChaCha20XOR key (counter + word_of_nat i) nonce ?chunk outc (int ?n) =
     Inr (chacha20_init_state (replicate 16 0) key
            (counter + word_of_nat i + word_of_nat ((?n + 63) div 64)) nonce,
          map ?g [0..<?n])"
    using ChaCha20XOR_result [OF k, of ?chunk outc key "counter + word_of_nat i" nonce] assms(6)
    by simp
  have "take 64 (drop (64 * i) (map ?f [0..<?L])) = map ?g [0..<?n]"
  proof (rule nth_equalityI)
    show "length (take 64 (drop (64 * i) (map ?f [0..<?L]))) = length (map ?g [0..<?n])"
      by simp
  next
    fix t
    assume "t < length (take 64 (drop (64 * i) (map ?f [0..<?L])))"
    then have t: "t < 64" "64 * i + t < ?L" "t < ?n"
      by (simp_all add: less_diff_conv add.commute)
    then show "take 64 (drop (64 * i) (map ?f [0..<?L])) ! t = map ?g [0..<?n] ! t"
      by (simp add: keystream_byte_offset)
  qed
  with e d keystream_byte_offset [of _ key counter nonce i] show ?thesis
    by (metis (no_types, lifting))
qed

theorem ChaCha20XOR_block_independent_witness:
  "length (replicate 32 (0 :: u8)) = 32 \<and> length (replicate 12 (0 :: u8)) = 12
   \<and> int (length (replicate 70 (1 :: u8))) \<le> INT_MAX - 63
   \<and> length (replicate 70 (0 :: u8)) = length (replicate 70 (1 :: u8))
   \<and> 64 * 1 < length (replicate 70 (1 :: u8))
   \<and> length (replicate 6 (0 :: u8)) = length (take 64 (drop (64 * 1) (replicate 70 (1 :: u8))))
   \<and> (\<exists>s out' sc outc'.
           ChaCha20XOR (replicate 32 0) 5 (replicate 12 0) (replicate 70 1) (replicate 70 0)
             (int (length (replicate 70 (1 :: u8)))) = Inr (s, out')
         \<and> ChaCha20XOR (replicate 32 0) (5 + word_of_nat 1) (replicate 12 0)
               (take 64 (drop (64 * 1) (replicate 70 1))) (replicate 6 0)
               (int (length (take 64 (drop (64 * 1) (replicate 70 (1 :: u8)))))) = Inr (sc, outc')
         \<and> take 64 (drop (64 * 1) out') = outc'
         \<and> (\<forall>r<64. keystream_byte (replicate 32 0) 5 (replicate 12 0) (64 * 1 + r)
                      = keystream_byte (replicate 32 0) (5 + word_of_nat 1) (replicate 12 0) r))"
proof -
  have h: "length (replicate 32 (0 :: u8)) = 32" "length (replicate 12 (0 :: u8)) = 12"
    "int (length (replicate 70 (1 :: u8))) \<le> INT_MAX - 63"
    "length (replicate 70 (0 :: u8)) = length (replicate 70 (1 :: u8))"
    "64 * 1 < length (replicate 70 (1 :: u8))"
    "length (replicate 6 (0 :: u8)) = length (take 64 (drop (64 * 1) (replicate 70 (1 :: u8))))"
    by (simp_all add: INT_MAX_def)
  note c = ChaCha20XOR_block_independent [OF h, of 5]
  show ?thesis
    by (intro conjI h c)
qed

section \<open>Counter advance and buffer bounds\<close>

lemma ChaCha20XOR_outer_step:
  assumes "length s = 16" "length block = 64" "m < L" "int m + 64 \<le> INT_MAX"
    "L \<le> length inp" "L \<le> length out"
  shows "\<exists>block' out'. ChaCha20XOR_outer (int m) (int L) inp s block out
            = ChaCha20XOR_outer (int m + 64) (int L) inp (s[12 := s ! 12 + 1]) block' out'
          \<and> length block' = 64 \<and> length out' = length out"
proof -
  define blk where "blk = snd (chacha20_block s (replicate 64 0) 20)"
  have blk: "chacha20_block s block 20 = (s, blk)" "length blk = 64"
  proof -
    show "chacha20_block s block 20 = (s, blk)"
      unfolding blk_def by (rule chacha20_block_any_buffer [OF assms(1,2)])
    show "length blk = 64"
      unfolding blk_def by (rule chacha20_block_snd_length [OF assms(1)]) simp
  qed
  from ChaCha20XOR_inner_result [of m m blk L inp out, OF le_refl le_add1 assms(4) blk(2) assms(5,6)]
  obtain out1 where o1: "ChaCha20XOR_inner (int m) (int m) (int L) inp blk out = Inr out1"
    "length out1 = length out"
    by auto
  have "ChaCha20XOR_outer (int m) (int L) inp s block out
        = ChaCha20XOR_outer (int m + 64) (int L) inp (s[12 := s ! 12 + 1]) blk out1"
    using assms(3)
    by (subst ChaCha20XOR_outer.simps) (simp add: blk(1) o1(1))
  with blk(2) o1(2) show ?thesis
    by blast
qed

text \<open>
  The counter advance of claim C4, for the calls that return. For buffers that hold
  at least \<open>L\<close> bytes: an iteration of the loop of
  \<^verbatim>\<open>ChaCha20XOR\<close> that starts with the state \<open>s\<close> continues with
  \<open>s[12 := s ! 12 + 1]\<close>, that is, word 12 is incremented by one (addition of
  \<^verbatim>\<open>uint32_t\<close>, which wraps) and the other words are the same; and whenever the call
  on an \<open>L\<close>-byte input returns, word 12 of its state is the counter argument plus
  \<open>ceil(L / 64)\<close> and the words 0 to 11 and 13 to 15 are those of the initialised
  state. The call returns for every \<open>L\<close> up to \<open>INT_MAX - 63\<close>.
\<close>

theorem ChaCha20XOR_counter_advance:
  assumes "length key = 32" "length nonce = 12" "L \<le> length inp" "L \<le> length out"
  shows "(\<forall>m s block out1. m < L \<and> int m + 64 \<le> INT_MAX \<and> length s = 16 \<and> length block = 64
              \<and> length out1 = length out
            \<longrightarrow> (\<exists>block' out2. ChaCha20XOR_outer (int m) (int L) inp s block out1
                      = ChaCha20XOR_outer (int m + 64) (int L) inp (s[12 := s ! 12 + 1]) block' out2
                    \<and> length block' = 64 \<and> length out2 = length out))
       \<and> (\<forall>s' out'. ChaCha20XOR key counter nonce inp out (int L) = Inr (s', out')
            \<longrightarrow> length s' = 16
              \<and> s' ! 12 = counter + word_of_nat ((L + 63) div 64)
              \<and> (\<forall>k<16. k \<noteq> 12 \<longrightarrow>
                    s' ! k = chacha20_init_state (replicate 16 0) key counter nonce ! k))
       \<and> (int L \<le> INT_MAX - 63
            \<longrightarrow> (\<exists>s' out'. ChaCha20XOR key counter nonce inp out (int L) = Inr (s', out')))"
proof (intro conjI)
  show "\<forall>m s block out1. m < L \<and> int m + 64 \<le> INT_MAX \<and> length s = 16 \<and> length block = 64
              \<and> length out1 = length out
            \<longrightarrow> (\<exists>block' out2. ChaCha20XOR_outer (int m) (int L) inp s block out1
                      = ChaCha20XOR_outer (int m + 64) (int L) inp (s[12 := s ! 12 + 1]) block' out2
                    \<and> length block' = 64 \<and> length out2 = length out)"
  proof (intro allI impI)
    fix m and s :: "u32 list" and block out1 :: "u8 list"
    assume a: "m < L \<and> int m + 64 \<le> INT_MAX \<and> length s = 16 \<and> length block = 64
               \<and> length out1 = length out"
    then have "L \<le> length out1"
      using assms(4) by simp
    from ChaCha20XOR_outer_step [of s block m L inp out1, OF _ _ _ _ assms(3) this] a
    show "\<exists>block' out2. ChaCha20XOR_outer (int m) (int L) inp s block out1
                      = ChaCha20XOR_outer (int m + 64) (int L) inp (s[12 := s ! 12 + 1]) block' out2
                    \<and> length block' = 64 \<and> length out2 = length out"
      by simp
  qed
next
  let ?s0 = "chacha20_init_state (replicate 16 0) key counter nonce"
  let ?s' = "chacha20_init_state (replicate 16 0) key (counter + word_of_nat ((L + 63) div 64)) nonce"
  have l: "length (replicate 16 (0 :: u32)) = 16"
    by simp
  have s': "?s' = ?s0[12 := counter + word_of_nat ((L + 63) div 64)]"
    by (simp only: chacha20_init_state_counter [OF l])
  have p: "length ?s' = 16" "?s' ! 12 = counter + word_of_nat ((L + 63) div 64)"
    "\<forall>k<16. k \<noteq> 12 \<longrightarrow> ?s' ! k = ?s0 ! k"
  proof -
    show "length ?s' = 16"
      by (rule chacha20_init_state_length [OF l])
    show "?s' ! 12 = counter + word_of_nat ((L + 63) div 64)"
      by (rule chacha20_init_state_counter [OF l])
    show "\<forall>k<16. k \<noteq> 12 \<longrightarrow> ?s' ! k = ?s0 ! k"
      unfolding s' by simp
  qed
  show "\<forall>s' out'. ChaCha20XOR key counter nonce inp out (int L) = Inr (s', out')
            \<longrightarrow> length s' = 16
              \<and> s' ! 12 = counter + word_of_nat ((L + 63) div 64)
              \<and> (\<forall>k<16. k \<noteq> 12 \<longrightarrow>
                    s' ! k = chacha20_init_state (replicate 16 0) key counter nonce ! k)"
  proof (intro allI impI)
    fix s' :: "u32 list" and out' :: "u8 list"
    assume r: "ChaCha20XOR key counter nonce inp out (int L) = Inr (s', out')"
    have "int L \<le> INT_MAX - 63"
    proof (rule ccontr)
      assume "\<not> int L \<le> INT_MAX - 63"
      then have "ChaCha20XOR key counter nonce inp out (int L) = Inl SignedOverflow"
        using assms(3,4) by (intro ChaCha20XOR_length_limit) simp_all
      with r show False
        by simp
    qed
    from ChaCha20XOR_result [OF this assms(3,4), of key counter nonce] r
    have "s' = ?s'"
      by simp
    with p show "length s' = 16
              \<and> s' ! 12 = counter + word_of_nat ((L + 63) div 64)
              \<and> (\<forall>k<16. k \<noteq> 12 \<longrightarrow>
                    s' ! k = chacha20_init_state (replicate 16 0) key counter nonce ! k)"
      by simp
  qed
next
  show "int L \<le> INT_MAX - 63
            \<longrightarrow> (\<exists>s' out'. ChaCha20XOR key counter nonce inp out (int L) = Inr (s', out'))"
    using ChaCha20XOR_result [OF _ assms(3,4), of key counter nonce] by blast
qed

theorem ChaCha20XOR_counter_advance_witness:
  "length (replicate 32 (0 :: u8)) = 32 \<and> length (replicate 12 (0 :: u8)) = 12
   \<and> 65 \<le> length (replicate 65 (1 :: u8)) \<and> 65 \<le> length (replicate 65 (0 :: u8))
   \<and> int 65 \<le> INT_MAX - 63
   \<and> (\<exists>s' out'. ChaCha20XOR (replicate 32 0) 7 (replicate 12 0) (replicate 65 1) (replicate 65 0)
                    (int 65) = Inr (s', out')
             \<and> length s' = 16
             \<and> s' ! 12 = 7 + word_of_nat ((65 + 63) div 64)
             \<and> (\<forall>k<16. k \<noteq> 12 \<longrightarrow>
                   s' ! k = chacha20_init_state (replicate 16 0) (replicate 32 0) 7 (replicate 12 0) ! k))"
proof -
  have h: "length (replicate 32 (0 :: u8)) = 32" "length (replicate 12 (0 :: u8)) = 12"
    "65 \<le> length (replicate 65 (1 :: u8))" "65 \<le> length (replicate 65 (0 :: u8))"
    by simp_all
  have b: "int 65 \<le> INT_MAX - 63"
    by (simp add: INT_MAX_def)
  note c = ChaCha20XOR_counter_advance [OF h, of 7]
  from c b obtain s' out' where r: "ChaCha20XOR (replicate 32 0) 7 (replicate 12 0) (replicate 65 1)
      (replicate 65 0) (int 65) = Inr (s', out')"
    by blast
  with c have "length s' = 16
             \<and> s' ! 12 = 7 + word_of_nat ((65 + 63) div 64)
             \<and> (\<forall>k<16. k \<noteq> 12 \<longrightarrow>
                   s' ! k = chacha20_init_state (replicate 16 0) (replicate 32 0) 7 (replicate 12 0) ! k)"
    by blast
  with r h b show ?thesis
    by blast
qed

text \<open>
  The buffer bounds of claim C5, for the lengths within the range of the loop
  index. For buffers that
  hold at least \<open>L\<close> bytes, the call returns without a fault; the output buffer
  keeps its length and its bytes from index \<open>L\<close> on; the first \<open>L\<close> output bytes
  are the input bytes XOR the first \<open>L\<close> keystream bytes, so that of the last block
  only the bytes before \<open>L mod 64\<close> are used; the call on buffers cut to exactly
  \<open>L\<close> bytes returns the same state and the same \<open>L\<close> bytes, and since every
  access outside a buffer is a fault of the model, no index outside \<open>0..L-1\<close> is
  read or written; for \<open>L = 0\<close> the output buffer is unchanged. \<open>L\<close> is at most
  \<open>INT_MAX - 63\<close>.
\<close>

theorem ChaCha20XOR_buffer_bounds:
  assumes "length key = 32" "length nonce = 12"
    and "int L \<le> INT_MAX - 63" "L \<le> length inp" "L \<le> length out"
  shows "\<exists>s out'. ChaCha20XOR key counter nonce inp out (int L) = Inr (s, out')
           \<and> length out' = length out
           \<and> drop L out' = drop L out
           \<and> take L out' = map (\<lambda>t. inp ! t XOR keystream_byte key counter nonce t) [0..<L]
           \<and> ChaCha20XOR key counter nonce (take L inp) (take L out) (int L) = Inr (s, take L out')
           \<and> (L = 0 \<longrightarrow> out' = out)"
proof -
  let ?s = "chacha20_init_state (replicate 16 0) key (counter + word_of_nat ((L + 63) div 64)) nonce"
  let ?f = "\<lambda>t. inp ! t XOR keystream_byte key counter nonce t"
  let ?out' = "map ?f [0..<L] @ drop L out"
  have e: "ChaCha20XOR key counter nonce inp out (int L) = Inr (?s, ?out')"
    by (rule ChaCha20XOR_result [OF assms(3,4,5)])
  have "map (\<lambda>t. take L inp ! t XOR keystream_byte key counter nonce t) [0..<L] = map ?f [0..<L]"
    by simp
  then have d: "ChaCha20XOR key counter nonce (take L inp) (take L out) (int L)
                = Inr (?s, map ?f [0..<L])"
    using ChaCha20XOR_result [OF assms(3), of "take L inp" "take L out" key counter nonce] assms(4,5)
    by simp
  have "length ?out' = length out" "drop L ?out' = drop L out" "take L ?out' = map ?f [0..<L]"
    "L = 0 \<longrightarrow> ?out' = out"
    using assms(5) by simp_all
  with e d show ?thesis
    by (metis (no_types, lifting))
qed

theorem ChaCha20XOR_buffer_bounds_witness:
  "length (replicate 32 (0 :: u8)) = 32 \<and> length (replicate 12 (0 :: u8)) = 12
   \<and> int 65 \<le> INT_MAX - 63 \<and> 65 \<le> length (replicate 70 (1 :: u8))
   \<and> 65 \<le> length (replicate 80 (0 :: u8))
   \<and> (\<exists>s out'. ChaCha20XOR (replicate 32 0) 7 (replicate 12 0) (replicate 70 1) (replicate 80 0)
                   (int 65) = Inr (s, out')
           \<and> length out' = length (replicate 80 (0 :: u8))
           \<and> drop 65 out' = drop 65 (replicate 80 0)
           \<and> take 65 out'
               = map (\<lambda>t. replicate 70 1 ! t XOR keystream_byte (replicate 32 0) 7 (replicate 12 0) t)
                   [0..<65]
           \<and> ChaCha20XOR (replicate 32 0) 7 (replicate 12 0) (take 65 (replicate 70 1))
                 (take 65 (replicate 80 0)) (int 65) = Inr (s, take 65 out')
           \<and> ((65 :: nat) = 0 \<longrightarrow> out' = replicate 80 0))"
proof -
  have h: "length (replicate 32 (0 :: u8)) = 32" "length (replicate 12 (0 :: u8)) = 12"
    "int 65 \<le> INT_MAX - 63" "65 \<le> length (replicate 70 (1 :: u8))"
    "65 \<le> length (replicate 80 (0 :: u8))"
    by (simp_all add: INT_MAX_def)
  note c = ChaCha20XOR_buffer_bounds [OF h, of 7]
  show ?thesis
    by (intro conjI h c)
qed

section \<open>The published test vector\<close>

lemma push_bit_word_eval:
  "push_bit m (x :: u32) = word_of_nat (take_bit 32 (push_bit m (unat x)))"
proof -
  have "word_of_nat (take_bit 32 (push_bit m (unat x))) = (word_of_nat (push_bit m (unat x)) :: u32)"
    by (rule bit_word_eqI) (simp add: bit_simps)
  also have "\<dots> = push_bit m (word_of_nat (unat x))"
    by (simp add: of_nat_push_bit)
  finally show ?thesis by simp
qed

lemma drop_bit_word_eval: "drop_bit m (x :: u32) = word_of_nat (drop_bit m (unat x))"
  by (metis of_nat_unat ucast_id unat_drop_bit_eq)

lemma rotl32_eval:
  assumes "0 < n" "n < 32"
  shows "rotl32 x n = word_of_nat (take_bit 32 (push_bit (nat n) (unat x)))
                      OR word_of_nat (drop_bit (32 - nat n) (unat x))"
  unfolding rotl32_def rotl32_AND31 [OF assms]
  by (subst push_bit_word_eval, subst drop_bit_word_eval) simp

lemma u8t32le_zero:
  assumes "off + 4 \<le> n"
  shows "u8t32le (replicate n 0) off = 0"
  using assms by (simp add: u8t32le_def)

lemma chacha20_init_state_zero:
  "chacha20_init_state (replicate 16 0) (replicate 32 0) c (replicate 12 0)
   = [0x61707865, 0x3320646e, 0x79622d32, 0x6b206574, 0, 0, 0, 0, 0, 0, 0, 0, c, 0, 0, 0]"
proof -
  have l: "length (replicate 16 (0 :: u32)) = 16"
    by simp
  show ?thesis
    unfolding chacha20_init_state_explicit [OF l]
    by (simp add: u8t32le_zero)
qed

lemma chacha20_block_rounds_unfold:
  "0 < i \<Longrightarrow> chacha20_block_rounds i x = chacha20_block_rounds (i - 2) (chacha20_block_rounds_body x)"
  "\<not> 0 < i \<Longrightarrow> chacha20_block_rounds i x = x"
  by (subst chacha20_block_rounds.simps, simp)+

lemma chacha20_block_zero:
  "snd (chacha20_block
         [0x61707865, 0x3320646e, 0x79622d32, 0x6b206574, 0, 0, 0, 0, 0, 0, 0, 0, 0, 0, 0, 0]
         (replicate 64 0) 20) = rfc7539_keystream_zero"
proof -
  let ?st = "[0x61707865, 0x3320646e, 0x79622d32, 0x6b206574, 0, 0, 0, 0, 0, 0, 0, 0, 0, 0, 0, 0 :: u32]"
  have r: "chacha20_block_rounds 20 ?st =
    [0x4c704011, 0x5d1d8d32, 0x6c08300e, 0xbd9d20df,
     0xb819d2bd, 0x1aed8da0, 0xccef36a8, 0xc70d778b,
     0x7c5941da, 0x8d485751, 0x3fe02477, 0x374ad8b8,
     0xf4b8436a, 0x1ca11815, 0x69b687c3, 0x8665eeb2]"
    by (simp add: chacha20_block_rounds_unfold chacha20_block_rounds_body_def
        chacha20_quarterround_def rotl32_eval Let_def list_update_Cons_numeral
        cong: let_weak_cong)
  have g: "chacha20_block ?st (replicate 64 0) 20 =
     (?st, concat (map spec_wordToLittleEndianBytes (map2 (+) (chacha20_block_rounds 20 ?st) ?st)))"
    by (rule chacha20_block_general) simp_all
  show ?thesis
    unfolding g r snd_conv rfc7539_keystream_zero_def
    by (simp add: spec_wordToLittleEndianBytes_unfold)
qed

lemma chacha20_block_rfc7539_2_3_2:
  "snd (chacha20_block rfc7539_state_2_3_2 (replicate 64 255) 20) = rfc7539_block_2_3_2"
proof -
  have l: "length rfc7539_state_2_3_2 = 16" "length (replicate 64 (255 :: u8)) = 64"
    by (simp_all add: rfc7539_state_2_3_2_def)
  show ?thesis
    unfolding chacha20_block_general [OF l] snd_conv
    unfolding rfc7539_state_2_3_2_def rfc7539_block_2_3_2_def
    by (simp add: chacha20_block_rounds_unfold chacha20_block_rounds_body_def
        chacha20_quarterround_def rotl32_eval Let_def list_update_Cons_numeral
        spec_wordToLittleEndianBytes_unfold cong: let_weak_cong)
qed

text \<open>
  The refinement statement of claim C3 at the state of RFC 7539, section 2.3.2, and
  an output array that holds the byte 255 everywhere: the bytes written by the code
  are the published block, and so is the block transform of the specification.
\<close>

theorem chacha20_block_refines_spec_witness:
  "length rfc7539_state_2_3_2 = 16 \<and> length (replicate 64 (255 :: u8)) = 64
   \<and> (0 :: int) \<le> 20 \<and> even (20 :: int)
   \<and> snd (chacha20_block rfc7539_state_2_3_2 (replicate 64 255) 20)
       = spec_block_transform rfc7539_state_2_3_2 (nat 20)
   \<and> spec_block_transform rfc7539_state_2_3_2 (nat 20) = rfc7539_block_2_3_2"
proof -
  have h: "length rfc7539_state_2_3_2 = 16" "length (replicate 64 (255 :: u8)) = 64"
    "(0 :: int) \<le> 20" "even (20 :: int)"
    by (simp_all add: rfc7539_state_2_3_2_def)
  note t = chacha20_block_refines_spec [OF h]
  note e = trans [OF t [symmetric] chacha20_block_rfc7539_2_3_2]
  show ?thesis
    by (intro conjI h t e)
qed

text \<open>
  Claim C2. For the key of 32 zero bytes, the nonce of 12 zero bytes and the counter
  0, the 64 bytes that \<^verbatim>\<open>chacha20_block\<close> writes with the round count 20 are the
  keystream block published in RFC 7539 (appendix A.1, test vector 1), and
  \<^verbatim>\<open>ChaCha20XOR\<close> on 64 zero bytes returns that block (with the counter word of its
  state advanced to 1).
\<close>

theorem chacha20_rfc7539_zero_vector:
  "snd (chacha20_block (chacha20_init_state (replicate 16 0) (replicate 32 0) 0 (replicate 12 0))
          (replicate 64 0) 20) = rfc7539_keystream_zero
   \<and> ChaCha20XOR (replicate 32 0) 0 (replicate 12 0) (replicate 64 0) (replicate 64 0) 64
       = Inr (chacha20_init_state (replicate 16 0) (replicate 32 0) 1 (replicate 12 0),
              rfc7539_keystream_zero)"
proof (rule conjI)
  show b: "snd (chacha20_block (chacha20_init_state (replicate 16 0) (replicate 32 0) 0 (replicate 12 0))
          (replicate 64 0) 20) = rfc7539_keystream_zero"
    unfolding chacha20_init_state_zero by (rule chacha20_block_zero)
  have ks: "keystream_byte (replicate 32 0) 0 (replicate 12 0) t = rfc7539_keystream_zero ! t"
    if "t < 64" for t
    using that b by (simp add: keystream_byte_def)
  have len: "length rfc7539_keystream_zero = 64"
    by (simp add: rfc7539_keystream_zero_def)
  have "map (\<lambda>t. replicate 64 0 ! t XOR keystream_byte (replicate 32 0) 0 (replicate 12 0) t) [0..<64]
        = map (\<lambda>t. rfc7539_keystream_zero ! t) [0..<length rfc7539_keystream_zero]"
    unfolding len by (rule map_cong) (simp_all add: ks)
  then have m: "map (\<lambda>t. replicate 64 0 ! t XOR keystream_byte (replicate 32 0) 0 (replicate 12 0) t) [0..<64]
        = rfc7539_keystream_zero"
    by (simp only: map_nth)
  have h: "int 64 \<le> INT_MAX - 63" "64 \<le> length (replicate 64 (0 :: u8))"
    by (simp_all add: INT_MAX_def)
  have c: "(0 :: u32) + word_of_nat ((64 + 63) div 64) = 1"
    by simp
  have d: "drop 64 (replicate 64 (0 :: u8)) = []"
    by simp
  from ChaCha20XOR_result [OF h(1) h(2) h(2), of "replicate 32 0" 0 "replicate 12 0"]
  show "ChaCha20XOR (replicate 32 0) 0 (replicate 12 0) (replicate 64 0) (replicate 64 0) 64
       = Inr (chacha20_init_state (replicate 16 0) (replicate 32 0) 1 (replicate 12 0),
              rfc7539_keystream_zero)"
    unfolding m c d by simp
qed

section \<open>Lengths beyond the range of the loop index\<close>

text \<open>
  \<open>2147483585 = INT_MAX - 62\<close> is a value of the parameter \<^verbatim>\<open>int inlen\<close>. For this
  length the loop of \<^verbatim>\<open>ChaCha20XOR\<close> reaches \<open>i = 2147483584 < inlen\<close>, and the
  condition \<^verbatim>\<open>j < i + 64\<close> of the inner loop, whose guard \<^verbatim>\<open>if (j >= inlen) break\<close> is
  meant to stop at \<^verbatim>\<open>inlen\<close>, computes \<open>2147483648\<close> in \<^verbatim>\<open>int\<close>: a signed overflow. The
  five statements below evaluate the code at such inputs, one for each claim about
  \<^verbatim>\<open>ChaCha20XOR\<close> that is stated for every length.
\<close>

text \<open>
  Claim C1 (round trip for an input of any length). For a plaintext of
  \<open>2147483585\<close> bytes the call does not return a ciphertext: it ends in the signed
  overflow of the loop index.
\<close>

theorem ChaCha20XOR_round_trip_overflow:
  "ChaCha20XOR (replicate 32 0) 0 (replicate 12 0) (replicate 2147483585 1)
     (replicate 2147483585 0) 2147483585 = Inl SignedOverflow"
proof -
  have "ChaCha20XOR (replicate 32 0) 0 (replicate 12 0) (replicate 2147483585 1)
     (replicate 2147483585 0) (int 2147483585) = Inl SignedOverflow"
    by (rule ChaCha20XOR_length_limit) (simp_all add: INT_MAX_def)
  then show ?thesis
    by simp
qed

text \<open>
  Claim C4 (the counter word has advanced by \<open>ceil(L / 64)\<close> after the loop, for an
  input of \<open>L\<close> bytes). For \<open>L = 2147483585\<close> the loop does not complete: the call
  ends in the signed overflow of the loop index and returns no state.
\<close>

theorem ChaCha20XOR_counter_advance_overflow:
  "ChaCha20XOR (replicate 32 4) 7 (replicate 12 4) (replicate 2147483585 0)
     (replicate 2147483585 0) 2147483585 = Inl SignedOverflow"
proof -
  have "ChaCha20XOR (replicate 32 4) 7 (replicate 12 4) (replicate 2147483585 0)
     (replicate 2147483585 0) (int 2147483585) = Inl SignedOverflow"
    by (rule ChaCha20XOR_length_limit) (simp_all add: INT_MAX_def)
  then show ?thesis
    by simp
qed

text \<open>
  Claim C5 (no access outside the buffers, for every length). For \<open>L = 2147483585\<close>
  and buffers of \<open>L\<close> bytes the call ends in the signed overflow of the loop index,
  after which the accesses of the C program are not defined.
\<close>

theorem ChaCha20XOR_buffer_bounds_overflow:
  "ChaCha20XOR (replicate 32 1) 0 (replicate 12 1) (replicate 2147483585 0)
     (replicate 2147483585 0) 2147483585 = Inl SignedOverflow"
proof -
  have "ChaCha20XOR (replicate 32 1) 0 (replicate 12 1) (replicate 2147483585 0)
     (replicate 2147483585 0) (int 2147483585) = Inl SignedOverflow"
    by (rule ChaCha20XOR_length_limit) (simp_all add: INT_MAX_def)
  then show ?thesis
    by simp
qed

text \<open>
  Claim C6 (the output bytes of block \<open>i\<close> are the output of the call with the
  counter \<open>counter + i\<close> on the chunk, for an input of any length). For
  \<open>L = 2147483585\<close> and the block index 0 the call on the whole input ends in the
  signed overflow and has no output, while the call on the first chunk of 64 bytes
  returns one.
\<close>

theorem ChaCha20XOR_block_independent_overflow:
  "isl (ChaCha20XOR (replicate 32 2) 9 (replicate 12 2) (replicate 2147483585 0)
          (replicate 2147483585 0) 2147483585)
   \<and> \<not> isl (ChaCha20XOR (replicate 32 2) (9 + word_of_nat 0) (replicate 12 2)
              (take 64 (drop (64 * 0) (replicate 2147483585 0))) (replicate 64 0) 64)"
proof -
  have a: "ChaCha20XOR (replicate 32 2) 9 (replicate 12 2) (replicate 2147483585 0)
     (replicate 2147483585 0) (int 2147483585) = Inl SignedOverflow"
    by (rule ChaCha20XOR_length_limit) (simp_all add: INT_MAX_def)
  have "\<not> isl (ChaCha20XOR (replicate 32 2) (9 + word_of_nat 0) (replicate 12 2)
              (take 64 (drop (64 * 0) (replicate 2147483585 0))) (replicate 64 0) (int 64))"
    by (subst ChaCha20XOR_result) (simp_all add: INT_MAX_def)
  with a show ?thesis
    by simp
qed

text \<open>
  Claim C10 (the first \<open>k\<close> output bytes are the output for the input cut to \<open>k\<close>
  bytes, for an input of any length). For \<open>L = 2147483585\<close> and \<open>k = 1\<close> the call on
  the whole input ends in the signed overflow and has no output, while the call on
  the input cut to one byte returns one.
\<close>

theorem ChaCha20XOR_prefix_stable_overflow:
  "isl (ChaCha20XOR (replicate 32 3) 4 (replicate 12 3) (replicate 2147483585 0)
          (replicate 2147483585 0) 2147483585)
   \<and> \<not> isl (ChaCha20XOR (replicate 32 3) 4 (replicate 12 3)
              (take 1 (replicate 2147483585 0)) (replicate 1 0) 1)"
proof -
  have a: "ChaCha20XOR (replicate 32 3) 4 (replicate 12 3) (replicate 2147483585 0)
     (replicate 2147483585 0) (int 2147483585) = Inl SignedOverflow"
    by (rule ChaCha20XOR_length_limit) (simp_all add: INT_MAX_def)
  have "\<not> isl (ChaCha20XOR (replicate 32 3) 4 (replicate 12 3)
              (take 1 (replicate 2147483585 0)) (replicate 1 0) (int 1))"
    by (subst ChaCha20XOR_result) (simp_all add: INT_MAX_def)
  with a show ?thesis
    by simp
qed

end
